theory Spec2Isabelle
  imports Complex_Main
begin

section \<open>Bag-of-words and tf-idf features (week1\_embeddings/features.py)\<close>

text \<open>
  The module defines two transformers, \<^verbatim>\<open>BoW\<close> and \<^verbatim>\<open>TfIdf\<close>. Each has a
  \<^verbatim>\<open>fit\<close> method, which stores a table in the object, and a \<^verbatim>\<open>transform\<close> method,
  which turns texts into rows of numbers using that table.

  Conventions of the embedding:
  \<^item> a Python \<^verbatim>\<open>str\<close> is a \<open>string\<close>; a \<open>char\<close> stands for a code point below 256;
  \<^item> a Python \<^verbatim>\<open>dict\<close> is an association list in insertion order;
  \<^item> a Python \<^verbatim>\<open>int\<close> is an \<open>int\<close> (a counter that only grows from 0 is a \<open>nat\<close>);
  \<^item> numpy's 64-bit floating-point arithmetic is idealised as arithmetic on \<open>real\<close>; the
    cast to 32-bit floats that ends each row is modelled with its rounding;
  \<^item> an exception is a value \<open>Inl e\<close> of the result type \<open>error + 'a\<close>;
  \<^item> the iteration order of a Python \<^verbatim>\<open>set\<close> built from a list is not fixed by the
    language. It is a parameter \<open>iter\<close> of the model: \<open>iter xs\<close> is the order in which
    \<^verbatim>\<open>set(xs)\<close> is traversed.
\<close>

datatype error = AssertionError | KeyError | ValueError | TypeError

type_synonym 'v dict = "(string \<times> 'v) list"

subsection \<open>Strings: \<^verbatim>\<open>str.split()\<close> and \<^verbatim>\<open>' '.join\<close>\<close>

text \<open>\<^verbatim>\<open>str.isspace\<close> on the code points below 256: tab to carriage return, the four
  separators FS, GS, RS, US, the space, NEL and the no-break space.\<close>

definition isspace :: "char \<Rightarrow> bool" where
  "isspace c = (let n = (of_char c :: nat)
                in (9 \<le> n \<and> n \<le> 13) \<or> (28 \<le> n \<and> n \<le> 32) \<or> n = 133 \<or> n = 160)"

text \<open>\<^verbatim>\<open>text.split()\<close> with no argument: the maximal runs of non-space characters, in
  order; \<open>cur\<close> is the token read so far.\<close>

fun split_acc :: "string \<Rightarrow> string \<Rightarrow> string list" where
  "split_acc cur [] = (if cur = [] then [] else [cur])"
| "split_acc cur (c # cs) =
     (if isspace c then (if cur = [] then split_acc [] cs else cur # split_acc [] cs)
      else split_acc (cur @ [c]) cs)"

definition split :: "string \<Rightarrow> string list" where
  "split text = split_acc [] text"

text \<open>\<^verbatim>\<open>' '.join(X)\<close>\<close>

fun join :: "string list \<Rightarrow> string" where
  "join [] = []"
| "join [x] = x"
| "join (x # y # ys) = x @ CHR '' '' # join (y # ys)"

subsection \<open>Dictionaries\<close>

text \<open>\<^verbatim>\<open>d[k]\<close> as a lookup, \<^verbatim>\<open>d[k] = v\<close> (a present key keeps its position, a new key goes
  last), \<^verbatim>\<open>k in d\<close>, \<^verbatim>\<open>{word: v for word in ws}\<close> and \<^verbatim>\<open>d[k] += 1\<close>, which raises KeyError
  on a missing key.\<close>

fun dict_get :: "'v dict \<Rightarrow> string \<Rightarrow> 'v option" where
  "dict_get [] k = None"
| "dict_get ((k', v) # d) k = (if k' = k then Some v else dict_get d k)"

fun dict_set :: "'v dict \<Rightarrow> string \<Rightarrow> 'v \<Rightarrow> 'v dict" where
  "dict_set [] k v = [(k, v)]"
| "dict_set ((k', v') # d) k v = (if k' = k then (k, v) # d else (k', v') # dict_set d k v)"

definition dict_keys :: "'v dict \<Rightarrow> string list" where
  "dict_keys d = map fst d"

definition dict_values :: "'v dict \<Rightarrow> 'v list" where
  "dict_values d = map snd d"

definition dict_fromkeys :: "string list \<Rightarrow> 'v \<Rightarrow> 'v dict" where
  "dict_fromkeys ws v = foldl (\<lambda>d w. dict_set d w v) [] ws"

definition dict_incr :: "nat dict \<Rightarrow> string \<Rightarrow> error + nat dict" where
  "dict_incr d k = (case dict_get d k of None \<Rightarrow> Inl KeyError
                    | Some c \<Rightarrow> Inr (dict_set d k (c + 1)))"

text \<open>\<^verbatim>\<open>for word in ws: d[word] += 1\<close>\<close>

fun incr_each :: "nat dict \<Rightarrow> string list \<Rightarrow> error + nat dict" where
  "incr_each d [] = Inr d"
| "incr_each d (w # ws) =
     (case dict_incr d w of Inl e \<Rightarrow> Inl e | Inr d' \<Rightarrow> incr_each d' ws)"

text \<open>A list comprehension whose body may raise: the first exception ends it.\<close>

fun collect :: "('a \<Rightarrow> error + 'b) \<Rightarrow> 'a list \<Rightarrow> error + 'b list" where
  "collect f [] = Inr []"
| "collect f (x # xs) =
     (case f x of Inl e \<Rightarrow> Inl e
      | Inr y \<Rightarrow> (case collect f xs of Inl e \<Rightarrow> Inl e | Inr ys \<Rightarrow> Inr (y # ys)))"

subsection \<open>Sorting, slicing, numpy\<close>

text \<open>\<^verbatim>\<open>sorted(d, key=lambda x: d[x], reverse=True)\<close>: the keys of \<open>d\<close> by descending value.
  Python's sort is stable and stays so under \<^verbatim>\<open>reverse=True\<close>: keys with equal values keep
  the order they have in \<open>d\<close>. The keys of a dictionary are distinct, so sorting the keys by
  their looked-up value is sorting the items by value.\<close>

definition sorted_desc :: "nat dict \<Rightarrow> nat dict" where
  "sorted_desc d = sort_key (\<lambda>p. - int (snd p)) d"

text \<open>\<^verbatim>\<open>xs[:k]\<close> for an integer \<open>k\<close>: a negative \<open>k\<close> counts from the end.\<close>

definition slice_to :: "int \<Rightarrow> 'a list \<Rightarrow> 'a list" where
  "slice_to k xs = (if 0 \<le> k then take (nat k) xs else take (nat (int (length xs) + k)) xs)"

text \<open>\<^verbatim>\<open>np.array(values, "float32")\<close> stores each number in IEEE binary32, rounded to the
  nearest representable number, a tie to the one with an even significand. A normal
  number with exponent \<open>e\<close> is a multiple of \<open>2 powr (e - 23)\<close>; below \<open>2 powr -126\<close> the
  spacing stays \<open>2 powr -149\<close>. Numbers of magnitude \<open>2 powr 128\<close> and more, which binary32
  stores as infinity, are beyond the counts and weights of a corpus held in memory and are
  not modelled.\<close>

definition round_even :: "real \<Rightarrow> int" where
  "round_even r =
     (let f = \<lfloor>r\<rfloor>
      in if r - of_int f < 1 / 2 then f
         else if 1 / 2 < r - of_int f then f + 1
         else if even f then f else f + 1)"

definition float32 :: "real \<Rightarrow> real" where
  "float32 x =
     (if x = 0 then 0
      else let e = max \<lfloor>log 2 \<bar>x\<bar>\<rfloor> (- 126);
               ulp = 2 powr of_int (e - 23)
           in of_int (round_even (x / ulp)) * ulp)"

text \<open>\<^verbatim>\<open>np.stack(rows)\<close> raises ValueError on an empty list of rows and on rows of
  different shapes.\<close>

definition np_stack :: "real list list \<Rightarrow> error + real list list" where
  "np_stack rows =
     (if rows = [] then Inl ValueError
      else if \<exists>r \<in> set rows. length r \<noteq> length (hd rows) then Inl ValueError
      else Inr rows)"

text \<open>\<^verbatim>\<open>np.linalg.norm(result, axis=0, keepdims=True)\<close> of a one-dimensional array: its
  Euclidean norm (in an array of one element, which then broadcasts).\<close>

definition norm2 :: "real list \<Rightarrow> real" where
  "norm2 xs = sqrt (sum_list (map (\<lambda>x. x * x) xs))"

definition EPS :: real where
  "EPS = 1 / 10000"

subsection \<open>class BoW\<close>

record BoW =
  BoW_k :: int
  BoW_bow :: "string list option"

definition BoW_init :: "int \<Rightarrow> BoW" where
  "BoW_init k = \<lparr>BoW_k = k, BoW_bow = None\<rparr>"

text \<open>The nested loop of \<^verbatim>\<open>fit\<close>:
  \<^verbatim>\<open>for text in X: for word in text.split(): res[word] += 1\<close>\<close>

fun count_tokens :: "nat dict \<Rightarrow> string list \<Rightarrow> error + nat dict" where
  "count_tokens res [] = Inr res"
| "count_tokens res (text # X) =
     (case incr_each res (split text) of Inl e \<Rightarrow> Inl e | Inr res' \<Rightarrow> count_tokens res' X)"

definition BoW_fit :: "(string list \<Rightarrow> string list) \<Rightarrow> BoW \<Rightarrow> string list \<Rightarrow> error + BoW" where
  "BoW_fit iter self X =
     (let vocab = iter (split (join X));
          res = dict_fromkeys vocab (0::nat)
      in case count_tokens res X of
           Inl e \<Rightarrow> Inl e
         | Inr res' \<Rightarrow>
             Inr (self\<lparr>BoW_bow := Some (slice_to (BoW_k self) (dict_keys (sorted_desc res')))\<rparr>))"

text \<open>\<^verbatim>\<open>for word in text.split(): if word in self.bow: result[word] += 1\<close>\<close>

fun count_known :: "string list \<Rightarrow> nat dict \<Rightarrow> string list \<Rightarrow> error + nat dict" where
  "count_known known result [] = Inr result"
| "count_known known result (word # ws) =
     (if word \<in> set known
      then (case dict_incr result word of Inl e \<Rightarrow> Inl e
            | Inr result' \<Rightarrow> count_known known result' ws)
      else count_known known result ws)"

text \<open>\<^verbatim>\<open>_text_to_bow\<close>. Iterating over \<^verbatim>\<open>self.bow\<close> when it is None raises TypeError.\<close>

definition BoW_text_to_bow :: "BoW \<Rightarrow> string \<Rightarrow> error + real list" where
  "BoW_text_to_bow self text =
     (case BoW_bow self of
        None \<Rightarrow> Inl TypeError
      | Some bow \<Rightarrow>
          (case count_known bow (dict_fromkeys bow (0::nat)) (split text) of
             Inl e \<Rightarrow> Inl e
           | Inr result \<Rightarrow> Inr (map (\<lambda>c. float32 (real c)) (dict_values result))))"

text \<open>\<^verbatim>\<open>transform\<close> returns its result and the object as it leaves it.\<close>

definition BoW_transform :: "BoW \<Rightarrow> string list \<Rightarrow> (error + real list list) \<times> BoW" where
  "BoW_transform self X =
     (case BoW_bow self of
        None \<Rightarrow> (Inl AssertionError, self)
      | Some _ \<Rightarrow>
          (case collect (BoW_text_to_bow self) X of
             Inl e \<Rightarrow> (Inl e, self)
           | Inr rows \<Rightarrow> (np_stack rows, self)))"

definition BoW_get_vocabulary :: "BoW \<Rightarrow> string list option" where
  "BoW_get_vocabulary self = BoW_bow self"

subsection \<open>class TfIdf\<close>

record TfIdf =
  TfIdf_k :: "int option"
  TfIdf_normalize :: bool
  TfIdf_idf :: "real dict option"

text \<open>\<^verbatim>\<open>__init__\<close> stores an empty \<^verbatim>\<open>OrderedDict()\<close> in \<^verbatim>\<open>self.idf\<close>, not None.\<close>

definition TfIdf_init :: "int option \<Rightarrow> bool \<Rightarrow> TfIdf" where
  "TfIdf_init k nrm = \<lparr>TfIdf_k = k, TfIdf_normalize = nrm, TfIdf_idf = Some []\<rparr>"

text \<open>The nested loop of \<^verbatim>\<open>fit\<close>:
  \<^verbatim>\<open>for text in X: text_set = set(text.split()); for word in text_set: idf[word] += 1\<close>\<close>

fun count_docs :: "(string list \<Rightarrow> string list) \<Rightarrow> nat dict \<Rightarrow> string list \<Rightarrow> error + nat dict" where
  "count_docs iter idf [] = Inr idf"
| "count_docs iter idf (text # X) =
     (case incr_each idf (iter (split text)) of
        Inl e \<Rightarrow> Inl e
      | Inr idf' \<Rightarrow> count_docs iter idf' X)"

text \<open>\<^verbatim>\<open>{word: idf[word] for i, word in enumerate(keys) if i < k}\<close> with \<open>keys\<close> the keys
  by descending value.\<close>

definition restrict_top :: "int \<Rightarrow> nat dict \<Rightarrow> nat dict" where
  "restrict_top k idf =
     map snd (filter (\<lambda>(i, p). int i < k) (enumerate 0 (sorted_desc idf)))"

text \<open>\<^verbatim>\<open>np.log(N / (df + 1))\<close>. The division is Python's true division of integers; its
  divisor is at least 1. \<open>ln\<close> stands for \<^verbatim>\<open>np.log\<close> on positive arguments.\<close>

definition idf_arg :: "nat \<Rightarrow> nat \<Rightarrow> real" where
  "idf_arg N df = real N / real (df + 1)"

definition idf_score :: "nat \<Rightarrow> nat \<Rightarrow> real" where
  "idf_score N df = ln (idf_arg N df)"

text \<open>\<^verbatim>\<open>fit\<close>. The test \<^verbatim>\<open>if self.k:\<close> is false for None and for 0.\<close>

definition TfIdf_fit :: "(string list \<Rightarrow> string list) \<Rightarrow> TfIdf \<Rightarrow> string list \<Rightarrow> error + TfIdf" where
  "TfIdf_fit iter self X =
     (let N = length X;
          vocab = iter (split (join X));
          idf0 = dict_fromkeys vocab (0::nat)
      in case count_docs iter idf0 X of
           Inl e \<Rightarrow> Inl e
         | Inr idf1 \<Rightarrow>
             (let idf2 = (case TfIdf_k self of
                            None \<Rightarrow> idf1
                          | Some k \<Rightarrow> if k \<noteq> 0 then restrict_top k idf1 else idf1)
              in Inr (self\<lparr>TfIdf_idf := Some (map (\<lambda>(word, df). (word, idf_score N df)) idf2)\<rparr>)))"

text \<open>\<^verbatim>\<open>result = [tf[word] * self.idf[word] for word in self.idf]\<close>\<close>

definition tf_times_idf :: "nat dict \<Rightarrow> real dict \<Rightarrow> string \<Rightarrow> error + real" where
  "tf_times_idf tf idf word =
     (case dict_get tf word of
        None \<Rightarrow> Inl KeyError
      | Some n \<Rightarrow> (case dict_get idf word of
                    None \<Rightarrow> Inl KeyError
                  | Some s \<Rightarrow> Inr (real n * s)))"

text \<open>\<^verbatim>\<open>result /= (np.linalg.norm(result, axis=0, keepdims=True) + EPS)\<close>\<close>

definition normalize_row :: "real list \<Rightarrow> real list" where
  "normalize_row result = map (\<lambda>x. x / (norm2 result + EPS)) result"

definition TfIdf_text_to_tf_idf :: "TfIdf \<Rightarrow> string \<Rightarrow> error + real list" where
  "TfIdf_text_to_tf_idf self text =
     (case TfIdf_idf self of
        None \<Rightarrow> Inl TypeError
      | Some idf \<Rightarrow>
          (case count_known (dict_keys idf) (dict_fromkeys (dict_keys idf) (0::nat)) (split text) of
             Inl e \<Rightarrow> Inl e
           | Inr tf \<Rightarrow>
               (case collect (tf_times_idf tf idf) (dict_keys idf) of
                  Inl e \<Rightarrow> Inl e
                | Inr result \<Rightarrow>
                    Inr (map float32
                          (if TfIdf_normalize self then normalize_row result else result)))))"

definition TfIdf_transform :: "TfIdf \<Rightarrow> string list \<Rightarrow> (error + real list list) \<times> TfIdf" where
  "TfIdf_transform self X =
     (case TfIdf_idf self of
        None \<Rightarrow> (Inl AssertionError, self)
      | Some _ \<Rightarrow>
          (case collect (TfIdf_text_to_tf_idf self) X of
             Inl e \<Rightarrow> (Inl e, self)
           | Inr rows \<Rightarrow> (np_stack rows, self)))"

subsection \<open>Notions used to state the properties\<close>

text \<open>What is known of the traversal order of a set: every element once.\<close>

definition set_order :: "(string list \<Rightarrow> string list) \<Rightarrow> bool" where
  "set_order iter = (\<forall>xs. distinct (iter xs) \<and> set (iter xs) = set xs)"

text \<open>The distinct whitespace tokens of a corpus; the number of occurrences of a token in
  the whole corpus; the number of documents a token occurs in.\<close>

definition tokens :: "string list \<Rightarrow> string set" where
  "tokens X = (\<Union>doc \<in> set X. set (split doc))"

definition occurrences :: "string list \<Rightarrow> string \<Rightarrow> nat" where
  "occurrences X w = count_list (concat (map split X)) w"

definition doc_freq :: "string list \<Rightarrow> string \<Rightarrow> nat" where
  "doc_freq X w = length (filter (\<lambda>doc. w \<in> set (split doc)) X)"

text \<open>The tf-idf vector of a text over a table: for each entry of the table, in its order,
  the number of occurrences of the token in the text times the score of the token.\<close>

definition tf_idf_vector :: "real dict \<Rightarrow> string \<Rightarrow> real list" where
  "tf_idf_vector idf doc = map (\<lambda>(w, s). real (count_list (split doc) w) * s) idf"

section \<open>Properties\<close>

subsection \<open>Tokens of the joined corpus\<close>

lemma split_acc_space:
  "isspace c \<Longrightarrow> split_acc cur (s @ c # t) = split_acc cur s @ split_acc [] t"
  by (induction s arbitrary: cur) auto

lemma isspace_space: "isspace CHR '' ''"
  by (simp add: isspace_def)

lemma split_join: "split (join X) = concat (map split X)"
  by (induction X rule: join.induct) (simp_all add: split_def split_acc_space isspace_space)

lemma set_split_join: "set (split (join X)) = tokens X"
  by (simp add: split_join tokens_def)

lemma dict_set_fresh: "k \<notin> fst ` set d \<Longrightarrow> dict_set d k v = d @ [(k, v)]"
  by (induction d) auto

lemma foldl_dict_set:
  "distinct ws \<Longrightarrow> set ws \<inter> fst ` set d = {} \<Longrightarrow>
   foldl (\<lambda>d w. dict_set d w v) d ws = d @ map (\<lambda>w. (w, v)) ws"
proof (induction ws arbitrary: d)
  case Nil
  then show ?case by simp
next
  case (Cons w ws)
  have fresh: "w \<notin> fst ` set d" using Cons.prems by auto
  have "set ws \<inter> fst ` set (d @ [(w, v)]) = {}" using Cons.prems by auto
  with Cons.IH [of "d @ [(w, v)]"] Cons.prems fresh show ?case
    by (simp add: dict_set_fresh)
qed

lemma dict_fromkeys_distinct: "distinct ws \<Longrightarrow> dict_fromkeys ws v = map (\<lambda>w. (w, v)) ws"
  using foldl_dict_set [of ws "[]" v] by (simp add: dict_fromkeys_def)

lemma dict_get_None: "k \<notin> fst ` set d \<Longrightarrow> dict_get d k = None"
  by (induction d) auto

lemma dict_incr_closed:
  "distinct (map fst d) \<Longrightarrow> w \<in> fst ` set d \<Longrightarrow>
   dict_incr d w = Inr (map (\<lambda>(k, c). (k, if k = w then c + 1 else c)) d)"
proof (induction d)
  case Nil
  then show ?case by simp
next
  case (Cons p d)
  obtain k c where p: "p = (k, c)" by (cases p)
  show ?case
  proof (cases "k = w")
    case True
    then have "w \<notin> fst ` set d" using Cons.prems p by auto
    then have "map (\<lambda>(k, c). (k, if k = w then c + 1 else c)) d = d"
      by (induction d) auto
    with True p show ?thesis by (simp add: dict_incr_def)
  next
    case False
    then have "w \<in> fst ` set d" using Cons.prems p by auto
    with Cons.IH Cons.prems have "dict_incr d w = Inr (map (\<lambda>(k, c). (k, if k = w then c + 1 else c)) d)"
      by simp
    with False p show ?thesis by (auto simp: dict_incr_def split: option.splits)
  qed
qed

lemma incr_each_closed:
  "distinct (map fst d) \<Longrightarrow> set ws \<subseteq> fst ` set d \<Longrightarrow>
   incr_each d ws = Inr (map (\<lambda>(k, c). (k, c + count_list ws k)) d)"
proof (induction ws arbitrary: d)
  case Nil
  then show ?case by simp
next
  case (Cons w ws)
  let ?d = "map (\<lambda>(k, c). (k, if k = w then c + 1 else c)) d"
  have keys: "map fst ?d = map fst d" by (induction d) auto
  then have img: "fst ` set ?d = fst ` set d" by (metis list.set_map)
  have step: "dict_incr d w = Inr ?d" using Cons.prems by (simp add: dict_incr_closed)
  have d1: "distinct (map fst ?d)" unfolding keys using Cons.prems(1) .
  have s1: "set ws \<subseteq> fst ` set ?d" unfolding img using Cons.prems(2) by simp
  have "incr_each ?d ws = Inr (map (\<lambda>(k, c). (k, c + count_list ws k)) ?d)"
    using Cons.IH [OF d1 s1] .
  with step show ?case by (auto simp: case_prod_unfold)
qed

lemma keys_add: "map fst (map (\<lambda>(k, c). (k, c + f k)) d) = map fst d"
  by (induction d) auto

lemma count_tokens_closed:
  "distinct (map fst d) \<Longrightarrow> tokens X \<subseteq> fst ` set d \<Longrightarrow>
   count_tokens d X = Inr (map (\<lambda>(k, c). (k, c + occurrences X k)) d)"
proof (induction X arbitrary: d)
  case Nil
  then show ?case by (simp add: occurrences_def)
next
  case (Cons doc X)
  let ?d = "map (\<lambda>(k, c). (k, c + count_list (split doc) k)) d"
  have keys: "map fst ?d = map fst d" by (rule keys_add)
  then have img: "fst ` set ?d = fst ` set d" by (metis list.set_map)
  have sub: "set (split doc) \<subseteq> fst ` set d" using Cons.prems(2) by (auto simp: tokens_def)
  have step: "incr_each d (split doc) = Inr ?d"
    using Cons.prems(1) sub by (rule incr_each_closed)
  have d1: "distinct (map fst ?d)" unfolding keys using Cons.prems(1) .
  have s1: "tokens X \<subseteq> fst ` set ?d" unfolding img using Cons.prems(2) by (auto simp: tokens_def)
  have "count_tokens ?d X = Inr (map (\<lambda>(k, c). (k, c + occurrences X k)) ?d)"
    using Cons.IH [OF d1 s1] .
  with step show ?case by (auto simp: case_prod_unfold occurrences_def)
qed

lemma count_list_distinct: "distinct ws \<Longrightarrow> count_list ws k = (if k \<in> set ws then 1 else 0)"
  by (induction ws) auto

lemma count_docs_closed:
  "set_order iter \<Longrightarrow> distinct (map fst d) \<Longrightarrow> tokens X \<subseteq> fst ` set d \<Longrightarrow>
   count_docs iter d X = Inr (map (\<lambda>(k, c). (k, c + doc_freq X k)) d)"
proof (induction X arbitrary: d)
  case Nil
  then show ?case by (simp add: doc_freq_def)
next
  case (Cons doc X)
  let ?ws = "iter (split doc)"
  let ?d = "map (\<lambda>(k, c). (k, c + count_list ?ws k)) d"
  have ws: "distinct ?ws" "set ?ws = set (split doc)"
    using Cons.prems(1) by (simp_all add: set_order_def)
  have keys: "map fst ?d = map fst d" by (rule keys_add)
  then have img: "fst ` set ?d = fst ` set d" by (metis list.set_map)
  have sub: "set ?ws \<subseteq> fst ` set d" using Cons.prems(3) ws by (auto simp: tokens_def)
  have step: "incr_each d ?ws = Inr ?d"
    using Cons.prems(2) sub by (rule incr_each_closed)
  have d1: "distinct (map fst ?d)" unfolding keys using Cons.prems(2) .
  have s1: "tokens X \<subseteq> fst ` set ?d" unfolding img using Cons.prems(3) by (auto simp: tokens_def)
  have "count_docs iter ?d X = Inr (map (\<lambda>(k, c). (k, c + doc_freq X k)) ?d)"
    using Cons.IH [OF Cons.prems(1) d1 s1] .
  with step show ?case
    by (auto simp: case_prod_unfold doc_freq_def count_list_distinct [OF ws(1)] ws(2))
qed

lemma count_known_filter:
  "count_known known d ws = incr_each d (filter (\<lambda>w. w \<in> set known) ws)"
  by (induction ws arbitrary: d) (auto split: sum.splits)

lemma count_list_filter: "count_list (filter P ws) k = (if P k then count_list ws k else 0)"
  by (induction ws) auto

lemma count_known_closed:
  assumes "distinct known"
  shows "count_known known (dict_fromkeys known 0) ws = Inr (map (\<lambda>w. (w, count_list ws w)) known)"
proof -
  let ?d = "map (\<lambda>w. (w, 0::nat)) known"
  have d0: "dict_fromkeys known (0::nat) = ?d" using assms by (rule dict_fromkeys_distinct)
  have keys: "map fst ?d = known" by (induction known) auto
  have d1: "distinct (map fst ?d)" unfolding keys using assms .
  have s1: "set (filter (\<lambda>w. w \<in> set known) ws) \<subseteq> fst ` set ?d" by force
  have "incr_each ?d (filter (\<lambda>w. w \<in> set known) ws)
          = Inr (map (\<lambda>(k, c). (k, c + count_list (filter (\<lambda>w. w \<in> set known) ws) k)) ?d)"
    using d1 s1 by (rule incr_each_closed)
  then show ?thesis
    by (simp add: count_known_filter d0 count_list_filter comp_def)
qed

subsection \<open>What the two fit methods store\<close>

lemma map_zero_add: "map (\<lambda>(k, c). (k, c + f k)) (map (\<lambda>w. (w, 0::nat)) ws) = map (\<lambda>w. (w, f w)) ws"
  by (induction ws) auto

lemma keys_pairs: "map fst (map (\<lambda>w. (w, f w)) ws) = ws"
  by (induction ws) auto

lemma BoW_fit_closed:
  assumes "set_order iter"
  shows "BoW_fit iter self X =
         Inr (self\<lparr>BoW_bow := Some (slice_to (BoW_k self)
               (dict_keys (sorted_desc (map (\<lambda>w. (w, occurrences X w)) (iter (split (join X)))))))\<rparr>)"
proof -
  let ?vocab = "iter (split (join X))"
  let ?res = "map (\<lambda>w. (w, 0::nat)) ?vocab"
  have v: "distinct ?vocab" "set ?vocab = tokens X"
    using assms by (simp_all add: set_order_def set_split_join)
  have r: "dict_fromkeys ?vocab (0::nat) = ?res" using v(1) by (rule dict_fromkeys_distinct)
  have d1: "distinct (map fst ?res)" unfolding keys_pairs using v(1) .
  have s1: "tokens X \<subseteq> fst ` set ?res" using v(2) by force
  have "count_tokens ?res X = Inr (map (\<lambda>(k, c). (k, c + occurrences X k)) ?res)"
    using d1 s1 by (rule count_tokens_closed)
  then have "count_tokens ?res X = Inr (map (\<lambda>w. (w, occurrences X w)) ?vocab)"
    by (simp only: map_zero_add)
  then show ?thesis by (simp add: BoW_fit_def r)
qed

lemma restrict_top_take_gen:
  "map snd (filter (\<lambda>(i, p). int i < k) (enumerate n xs)) = take (nat (k - int n)) xs"
proof (induction xs arbitrary: n)
  case Nil
  then show ?case by simp
next
  case (Cons x xs)
  show ?case
  proof (cases "int n < k")
    case True
    then have "nat (k - int n) = Suc (nat (k - int (Suc n)))" by simp
    with True Cons.IH [of "Suc n"] show ?thesis by simp
  next
    case False
    then have "filter (\<lambda>(i, p). int i < k) (enumerate (Suc n) xs) = []"
      by (auto simp: filter_empty_conv in_set_enumerate_eq)
    with False show ?thesis by simp
  qed
qed

lemma restrict_top_take: "restrict_top k d = take (nat k) (sorted_desc d)"
  using restrict_top_take_gen [of k 0 "sorted_desc d"] by (simp add: restrict_top_def)

lemma TfIdf_fit_closed:
  assumes "set_order iter"
  shows "TfIdf_fit iter self X =
         Inr (self\<lparr>TfIdf_idf := Some (map (\<lambda>(word, df). (word, idf_score (length X) df))
               (let idf1 = map (\<lambda>w. (w, doc_freq X w)) (iter (split (join X)))
                in case TfIdf_k self of None \<Rightarrow> idf1
                   | Some k \<Rightarrow> if k \<noteq> 0 then take (nat k) (sorted_desc idf1) else idf1))\<rparr>)"
proof -
  let ?vocab = "iter (split (join X))"
  let ?idf0 = "map (\<lambda>w. (w, 0::nat)) ?vocab"
  have v: "distinct ?vocab" "set ?vocab = tokens X"
    using assms by (simp_all add: set_order_def set_split_join)
  have r: "dict_fromkeys ?vocab (0::nat) = ?idf0" using v(1) by (rule dict_fromkeys_distinct)
  have d1: "distinct (map fst ?idf0)" unfolding keys_pairs using v(1) .
  have s1: "tokens X \<subseteq> fst ` set ?idf0" using v(2) by force
  have "count_docs iter ?idf0 X = Inr (map (\<lambda>(k, c). (k, c + doc_freq X k)) ?idf0)"
    using assms d1 s1 by (rule count_docs_closed)
  then have "count_docs iter ?idf0 X = Inr (map (\<lambda>w. (w, doc_freq X w)) ?vocab)"
    by (simp only: map_zero_add)
  then show ?thesis by (simp add: TfIdf_fit_def r restrict_top_take Let_def split: option.split)
qed

lemma distinct_map_insort_key:
  "distinct (map g (insort_key f x xs)) = (g x \<notin> g ` set xs \<and> distinct (map g xs))"
  by (induction xs) (auto simp: set_insort_key)

lemma distinct_map_sort_key: "distinct (map g (sort_key f xs)) = distinct (map g xs)"
  by (induction xs) (simp_all add: distinct_map_insort_key)

lemma sorted_desc_props:
  assumes "distinct ws"
  shows "distinct (dict_keys (sorted_desc (map (\<lambda>w. (w, f w)) ws)))"
    and "set (dict_keys (sorted_desc (map (\<lambda>w. (w, f w)) ws))) = set ws"
    and "length (dict_keys (sorted_desc (map (\<lambda>w. (w, f w)) ws))) = length ws"
    and "sorted_wrt (\<lambda>a b. f b \<le> f a) (dict_keys (sorted_desc (map (\<lambda>w. (w, f w)) ws)))"
proof -
  let ?d = "map (\<lambda>w. (w, f w)) ws"
  let ?ys = "sorted_desc ?d"
  show "distinct (dict_keys ?ys)"
    using assms by (simp add: dict_keys_def sorted_desc_def distinct_map_sort_key comp_def)
  have "set (map fst ?ys) = fst ` set ?d" by (simp add: sorted_desc_def)
  also have "\<dots> = set ws" by force
  finally show "set (dict_keys ?ys) = set ws" by (simp add: dict_keys_def)
  show "length (dict_keys ?ys) = length ws" by (simp add: dict_keys_def sorted_desc_def)
  have val: "\<And>p. p \<in> set ?ys \<Longrightarrow> snd p = f (fst p)" by (auto simp: sorted_desc_def)
  have "sorted (map (\<lambda>p. - int (snd p)) ?ys)" unfolding sorted_desc_def by (rule sorted_sort_key)
  then have "sorted_wrt (\<lambda>p q. - int (snd p) \<le> - int (snd q)) ?ys" by (simp add: sorted_map)
  then have "sorted_wrt (\<lambda>p q. f (fst q) \<le> f (fst p)) ?ys"
    by (rule sorted_wrt_mono_rel [rotated]) (simp add: val)
  then show "sorted_wrt (\<lambda>a b. f b \<le> f a) (dict_keys ?ys)"
    by (simp add: dict_keys_def sorted_wrt_map)
qed

subsection \<open>The vocabulary of BoW\<close>

text \<open>Claim C3, for a count \<open>k\<close> that is not negative: \<^verbatim>\<open>BoW.fit\<close> returns, and the
  vocabulary it stores has \<open>min k n\<close> tokens, where \<open>n\<close> is the number of distinct whitespace
  tokens of the corpus; no token is stored twice; along the vocabulary the number of
  occurrences in the whole corpus never increases.\<close>

theorem BoW_fit_vocabulary:
  assumes "set_order iter" and "0 \<le> BoW_k self"
  shows "\<exists>self' bow. BoW_fit iter self X = Inr self' \<and> BoW_get_vocabulary self' = Some bow
           \<and> int (length bow) = min (BoW_k self) (int (card (tokens X)))
           \<and> distinct bow
           \<and> sorted_wrt (\<lambda>a b. occurrences X b \<le> occurrences X a) bow"
proof -
  let ?vocab = "iter (split (join X))"
  let ?keys = "dict_keys (sorted_desc (map (\<lambda>w. (w, occurrences X w)) ?vocab))"
  let ?bow = "slice_to (BoW_k self) ?keys"
  have v: "distinct ?vocab" "set ?vocab = tokens X"
    using assms(1) by (simp_all add: set_order_def set_split_join)
  have fit: "BoW_fit iter self X = Inr (self\<lparr>BoW_bow := Some ?bow\<rparr>)"
    using assms(1) by (rule BoW_fit_closed)
  have bow: "?bow = take (nat (BoW_k self)) ?keys" using assms(2) by (simp add: slice_to_def)
  have "length ?vocab = card (tokens X)" using v by (metis distinct_card)
  then have "length ?bow = min (nat (BoW_k self)) (card (tokens X))"
    by (simp add: bow sorted_desc_props(3) [OF v(1)] min_def)
  then have len: "int (length ?bow) = min (BoW_k self) (int (card (tokens X)))"
    using assms(2) by linarith
  have dis: "distinct ?bow" unfolding bow using sorted_desc_props(1) [OF v(1)] by (rule distinct_take)
  have srt: "sorted_wrt (\<lambda>a b. occurrences X b \<le> occurrences X a) ?bow"
    unfolding bow using sorted_desc_props(4) [OF v(1)] by (rule sorted_wrt_take)
  show ?thesis using fit len dis srt by (simp add: BoW_get_vocabulary_def)
qed

theorem BoW_fit_vocabulary_witness:
  "set_order remdups \<and> 0 \<le> BoW_k (BoW_init 2)
   \<and> (\<exists>self' bow. BoW_fit remdups (BoW_init 2) [''a b b'', ''b c''] = Inr self'
         \<and> BoW_get_vocabulary self' = Some bow
         \<and> int (length bow) = min (BoW_k (BoW_init 2)) (int (card (tokens [''a b b'', ''b c''])))
         \<and> distinct bow
         \<and> sorted_wrt (\<lambda>a b. occurrences [''a b b'', ''b c''] b \<le> occurrences [''a b b'', ''b c''] a) bow)"
proof -
  have h1: "set_order remdups" by (simp add: set_order_def)
  have h2: "0 \<le> BoW_k (BoW_init 2)" by (simp add: BoW_init_def)
  show ?thesis using h1 h2 BoW_fit_vocabulary [OF h1 h2, of "[''a b b'', ''b c'']"] by simp
qed

text \<open>With \<open>k = -1\<close> the slice \<^verbatim>\<open>[:self.k]\<close> drops the last key: of the two tokens of the
  corpus one is stored, and \<open>min k 2\<close> is \<open>-1\<close>.\<close>

theorem BoW_fit_negative_k_counterexample:
  "BoW_fit remdups (BoW_init (- 1)) [''a b''] = Inr \<lparr>BoW_k = - 1, BoW_bow = Some [''a'']\<rparr>
   \<and> int (length [''a'']) \<noteq> min (- 1) (int (card (tokens [''a b''])))"
  by code_simp

subsection \<open>The cast to float32\<close>

lemma round_even_of_int: "round_even (of_int m) = m"
  by (simp add: round_even_def)

lemma round_even_near: "\<bar>of_int (round_even r) - r\<bar> \<le> 1 / 2"
proof -
  have "of_int \<lfloor>r\<rfloor> \<le> r" "r < of_int \<lfloor>r\<rfloor> + 1" by linarith+
  then show ?thesis by (auto simp: round_even_def Let_def)
qed

lemma float32_zero: "float32 0 = 0"
  by (simp add: float32_def)

text \<open>A number that is a multiple of its own spacing is stored as it is.\<close>

lemma float32_multiple:
  assumes "x \<noteq> 0"
    and "x / 2 powr of_int (max \<lfloor>log 2 \<bar>x\<bar>\<rfloor> (- 126) - 23) = of_int m"
  shows "float32 x = x"
proof -
  let ?ulp = "2 powr of_int (max \<lfloor>log 2 \<bar>x\<bar>\<rfloor> (- 126) - 23) :: real"
  have pos: "0 < ?ulp" by simp
  have "float32 x = of_int (round_even (x / ?ulp)) * ?ulp"
    using assms(1) by (simp add: float32_def Let_def)
  also have "\<dots> = of_int m * ?ulp" unfolding assms(2) round_even_of_int ..
  also have "\<dots> = x / ?ulp * ?ulp" unfolding assms(2) ..
  also have "\<dots> = x" using pos by simp
  finally show ?thesis .
qed

text \<open>A count of at most \<open>2 ^ 24\<close> is stored as it is.\<close>

lemma float32_count:
  assumes "n \<le> 2 ^ 24"
  shows "float32 (real n) = real n"
proof (cases "n = 0")
  case True
  then show ?thesis by (simp add: float32_zero)
next
  case False
  let ?x = "real n"
  let ?e = "\<lfloor>log 2 \<bar>?x\<bar>\<rfloor>"
  have x1: "1 \<le> ?x" using False by simp
  have nz: "?x \<noteq> 0" using False by simp
  then have "0 \<le> log 2 ?x" by simp
  then have e0: "0 \<le> ?e" by simp
  then have emax: "max ?e (- 126) = ?e" by simp
  have "?x \<le> real (2 ^ 24)" using assms by (rule iffD2 [OF of_nat_le_iff])
  then have xle: "?x \<le> 2 powr 24" by simp
  then have "log 2 ?x \<le> 24" using x1 by (simp add: log_le_iff)
  then have e24: "?e \<le> 24" by (simp add: floor_le_iff)
  show ?thesis
  proof (cases "?e = 24")
    case True
    then have "2 powr 24 \<le> \<bar>?x\<bar>"
      using floor_log_eq_powr_iff [of "\<bar>?x\<bar>" 2 24] x1 by simp
    then have "?x = 2 ^ 24" using xle by simp
    then have m: "?x / 2 powr of_int (max ?e (- 126) - 23) = of_int (2 ^ 23)"
      unfolding emax True by simp
    show ?thesis using nz m by (rule float32_multiple)
  next
    case False
    then have le: "?e \<le> 23" using e24 by linarith
    define k where "k = nat (23 - ?e)"
    have k: "of_int (?e - 23) = - real k" using le by (simp add: k_def)
    have "?x / 2 powr of_int (max ?e (- 126) - 23) = ?x * 2 ^ k"
      unfolding emax k by (simp add: powr_minus powr_realpow divide_inverse)
    also have "\<dots> = of_int (int (n * 2 ^ k))" by simp
    finally have m: "?x / 2 powr of_int (max ?e (- 126) - 23) = of_int (int (n * 2 ^ k))" .
    show ?thesis using nz m by (rule float32_multiple)
  qed
qed

text \<open>The first count that is not: \<open>2 ^ 24 + 1\<close> lies half way between two float32 numbers
  and goes to the even one.\<close>

lemma float32_first_inexact: "float32 16777217 = 16777216"
proof -
  have "\<lfloor>log 2 \<bar>16777217 :: real\<bar>\<rfloor> = 24"
    by (subst floor_log_eq_powr_iff) simp_all
  then have e: "max \<lfloor>log 2 \<bar>16777217 :: real\<bar>\<rfloor> (- 126) - 23 = 1" by simp
  have r: "round_even (16777217 / 2) = 8388608"
  proof -
    have "\<lfloor>16777217 / 2 :: real\<rfloor> = 8388608" by (simp add: floor_eq_iff)
    then show ?thesis by (simp add: round_even_def)
  qed
  show ?thesis unfolding float32_def Let_def e using r by simp
qed

text \<open>In the normal range the rounding moves a number by at most \<open>2 powr -24\<close> of its
  magnitude.\<close>

lemma float32_relative:
  assumes "1 / 2 ^ 126 \<le> \<bar>x\<bar>"
  shows "\<bar>float32 x - x\<bar> \<le> \<bar>x\<bar> / 2 ^ 24"
proof -
  let ?e = "\<lfloor>log 2 \<bar>x\<bar>\<rfloor>"
  let ?ulp = "2 powr of_int (?e - 23) :: real"
  have x0: "0 < \<bar>x\<bar>" using assms by (simp add: order.strict_trans2 [rotated])
  then have nz: "x \<noteq> 0" by simp
  have "2 powr (- 126) \<le> \<bar>x\<bar>" using assms by (simp add: powr_minus inverse_eq_divide)
  then have "- 126 \<le> log 2 \<bar>x\<bar>" using x0 by (simp add: le_log_iff)
  then have "- 126 \<le> ?e" by (simp add: le_floor_iff)
  then have emax: "max ?e (- 126) = ?e" by simp
  have pos: "0 < ?ulp" by simp
  have f: "float32 x = of_int (round_even (x / ?ulp)) * ?ulp"
    using nz by (simp add: float32_def Let_def emax)
  have "float32 x - x = (of_int (round_even (x / ?ulp)) - x / ?ulp) * ?ulp"
    unfolding f using pos by (simp add: algebra_simps)
  then have "\<bar>float32 x - x\<bar> = \<bar>of_int (round_even (x / ?ulp)) - x / ?ulp\<bar> * ?ulp"
    using pos by (simp add: abs_mult)
  also have "\<dots> \<le> 1 / 2 * ?ulp"
    using round_even_near [of "x / ?ulp"] pos by (intro mult_right_mono) simp_all
  also have "\<dots> = 2 powr of_int ?e / 2 ^ 24"
  proof -
    have "?ulp = 2 powr (of_int ?e - 23)" by simp
    also have "\<dots> = 2 powr of_int ?e / 2 powr 23" by (rule powr_diff)
    finally show ?thesis by simp
  qed
  also have "\<dots> \<le> \<bar>x\<bar> / 2 ^ 24"
  proof -
    have "2 powr of_int ?e \<le> 2 powr log 2 \<bar>x\<bar>" by (intro powr_mono) simp_all
    also have "\<dots> = \<bar>x\<bar>" using x0 by simp
    finally show ?thesis by (simp add: divide_right_mono)
  qed
  finally show ?thesis .
qed

subsection \<open>BoW.transform\<close>

lemma collect_closed: "(\<And>x. x \<in> set xs \<Longrightarrow> f x = Inr (g x)) \<Longrightarrow> collect f xs = Inr (map g xs)"
  by (induction xs) simp_all

lemma np_stack_same_length:
  "rows \<noteq> [] \<Longrightarrow> (\<And>r. r \<in> set rows \<Longrightarrow> length r = n) \<Longrightarrow> np_stack rows = Inr rows"
  by (cases rows) (auto simp: np_stack_def)

lemma BoW_fit_distinct:
  assumes "set_order iter" and "BoW_fit iter self0 corpus = Inr self"
  shows "\<exists>bow. BoW_bow self = Some bow \<and> distinct bow \<and> set bow \<subseteq> tokens corpus"
proof -
  let ?vocab = "iter (split (join corpus))"
  let ?keys = "dict_keys (sorted_desc (map (\<lambda>w. (w, occurrences corpus w)) ?vocab))"
  have v: "distinct ?vocab" "set ?vocab = tokens corpus"
    using assms(1) by (simp_all add: set_order_def set_split_join)
  have self: "self = self0\<lparr>BoW_bow := Some (slice_to (BoW_k self0) ?keys)\<rparr>"
    using assms(2) BoW_fit_closed [OF assms(1), of self0 corpus] by simp
  have "distinct (slice_to (BoW_k self0) ?keys)"
    using sorted_desc_props(1) [OF v(1)] by (simp add: slice_to_def)
  moreover have "set (slice_to (BoW_k self0) ?keys) \<subseteq> set ?keys"
    by (simp add: slice_to_def set_take_subset)
  then have "set (slice_to (BoW_k self0) ?keys) \<subseteq> tokens corpus"
    unfolding sorted_desc_props(2) [OF v(1)] v(2) .
  ultimately show ?thesis using self by simp
qed

lemma BoW_text_to_bow_closed:
  assumes "BoW_bow self = Some bow" and "distinct bow"
  shows "BoW_text_to_bow self doc
         = Inr (map (\<lambda>w. float32 (real (count_list (split doc) w))) bow)"
  using assms by (simp add: BoW_text_to_bow_def count_known_closed dict_values_def comp_def)

lemma BoW_transform_closed:
  assumes "BoW_bow self = Some bow" and "distinct bow" and "X \<noteq> []"
  shows "BoW_transform self X =
         (Inr (map (\<lambda>doc. map (\<lambda>w. float32 (real (count_list (split doc) w))) bow) X), self)"
proof -
  let ?rows = "map (\<lambda>doc. map (\<lambda>w. float32 (real (count_list (split doc) w))) bow) X"
  have "collect (BoW_text_to_bow self) X = Inr ?rows"
    by (rule collect_closed) (rule BoW_text_to_bow_closed [OF assms(1,2)])
  moreover have "np_stack ?rows = Inr ?rows"
    by (rule np_stack_same_length [where n = "length bow"]) (use assms(3) in auto)
  ultimately show ?thesis using assms(1) by (simp add: BoW_transform_def)
qed

lemma sum_indicator: "distinct bow \<Longrightarrow> (\<Sum>w\<leftarrow>bow. if t = w then 1 else 0) = (if t \<in> set bow then 1 else (0::nat))"
  by (induction bow) auto

lemma sum_count_list:
  "distinct bow \<Longrightarrow> (\<Sum>w\<leftarrow>bow. count_list ws w) = length (filter (\<lambda>t. t \<in> set bow) ws)"
proof (induction ws)
  case Nil
  then show ?case by simp
next
  case (Cons t ws)
  have "(\<Sum>w\<leftarrow>bow. count_list (t # ws) w) = (\<Sum>w\<leftarrow>bow. count_list ws w + (if t = w then 1 else 0))"
    by (rule arg_cong [where f = sum_list]) auto
  also have "\<dots> = (\<Sum>w\<leftarrow>bow. count_list ws w) + (\<Sum>w\<leftarrow>bow. if t = w then 1 else 0)"
    by (rule sum_list_addf)
  finally show ?case using Cons by (simp add: sum_indicator)
qed

lemma sum_count_list_real:
  "distinct bow \<Longrightarrow> (\<Sum>w\<leftarrow>bow. real (count_list ws w)) = real (length (filter (\<lambda>t. t \<in> set bow) ws))"
proof -
  assume "distinct bow"
  then have "real (\<Sum>w\<leftarrow>bow. count_list ws w) = real (length (filter (\<lambda>t. t \<in> set bow) ws))"
    by (simp only: sum_count_list)
  moreover have "real (\<Sum>w\<leftarrow>bow. count_list ws w) = (\<Sum>w\<leftarrow>bow. real (count_list ws w))"
    by (induction bow) auto
  ultimately show ?thesis by simp
qed

lemma count_list_le_known:
  "w \<in> set bow \<Longrightarrow> count_list ws w \<le> length (filter (\<lambda>t. t \<in> set bow) ws)"
  by (induction ws) auto

lemma float32_count_row:
  assumes "length (filter (\<lambda>t. t \<in> set bow) ws) \<le> 2 ^ 24"
  shows "map (\<lambda>w. float32 (real (count_list ws w))) bow = map (\<lambda>w. real (count_list ws w)) bow"
proof (rule map_cong [OF refl])
  fix w assume "w \<in> set bow"
  then have "count_list ws w \<le> length (filter (\<lambda>t. t \<in> set bow) ws)"
    by (rule count_list_le_known)
  then have "count_list ws w \<le> 2 ^ 24" using assms by (rule order_trans)
  then show "float32 (real (count_list ws w)) = real (count_list ws w)" by (rule float32_count)
qed

text \<open>Claim C4, with the cast to float32: after \<^verbatim>\<open>BoW.fit\<close>, \<^verbatim>\<open>transform\<close> of a batch of texts
  returns one row for each text, and \<^verbatim>\<open>_text_to_bow\<close> returns that row; entry \<open>i\<close> of the row
  is the number of occurrences in the text of token \<open>i\<close> of the vocabulary, stored as a
  float32: it is that number when the number is at most \<open>2 ^ 24\<close>; no exception is raised,
  whatever other tokens the text holds; when at most \<open>2 ^ 24\<close> tokens of the text are in the
  vocabulary, the entries of its row add up to the number of those tokens. (The batch is
  not empty: rows are what the claim is about.)\<close>

theorem BoW_transform_counts:
  assumes "set_order iter" and "BoW_fit iter self0 corpus = Inr self" and "X \<noteq> []"
  shows "\<exists>bow rows. BoW_get_vocabulary self = Some bow
           \<and> fst (BoW_transform self X) = Inr rows
           \<and> length rows = length X
           \<and> (\<forall>j < length X.
                 BoW_text_to_bow self (X ! j) = Inr (rows ! j)
               \<and> length (rows ! j) = length bow
               \<and> (\<forall>i < length bow.
                     rows ! j ! i = float32 (real (count_list (split (X ! j)) (bow ! i)))
                   \<and> (count_list (split (X ! j)) (bow ! i) \<le> 2 ^ 24 \<longrightarrow>
                        rows ! j ! i = real (count_list (split (X ! j)) (bow ! i))))
               \<and> (length (filter (\<lambda>t. t \<in> set bow) (split (X ! j))) \<le> 2 ^ 24 \<longrightarrow>
                    sum_list (rows ! j)
                    = real (length (filter (\<lambda>t. t \<in> set bow) (split (X ! j))))))"
proof -
  obtain bow where bow: "BoW_bow self = Some bow" "distinct bow"
    using BoW_fit_distinct [OF assms(1,2)] by blast
  let ?row = "\<lambda>doc. map (\<lambda>w. float32 (real (count_list (split doc) w))) bow"
  have tr: "BoW_transform self X = (Inr (map ?row X), self)"
    using bow assms(3) by (rule BoW_transform_closed)
  have each: "BoW_text_to_bow self (X ! j) = Inr (?row (X ! j))" for j
    using bow by (rule BoW_text_to_bow_closed)
  have total: "sum_list (?row doc) = real (length (filter (\<lambda>t. t \<in> set bow) (split doc)))"
    if small: "length (filter (\<lambda>t. t \<in> set bow) (split doc)) \<le> 2 ^ 24" for doc
    unfolding float32_count_row [OF small] using bow(2) by (rule sum_count_list_real)
  show ?thesis
    using bow(1) tr each total by (simp add: BoW_get_vocabulary_def float32_count)
qed

theorem BoW_transform_counts_witness:
  "set_order remdups
   \<and> BoW_fit remdups (BoW_init 2) [''a b b'', ''b c''] = Inr \<lparr>BoW_k = 2, BoW_bow = Some [''b'', ''a'']\<rparr>
   \<and> [''a b'', ''c c a''] \<noteq> []
   \<and> length (filter (\<lambda>t. t \<in> set [''b'', ''a'']) (split ''a b'')) \<le> 2 ^ 24
   \<and> length (filter (\<lambda>t. t \<in> set [''b'', ''a'']) (split ''c c a'')) \<le> 2 ^ 24
   \<and> fst (BoW_transform \<lparr>BoW_k = 2, BoW_bow = Some [''b'', ''a'']\<rparr> [''a b'', ''c c a'']) = Inr [[1, 1], [0, 1]]
   \<and> (\<exists>bow rows. BoW_get_vocabulary \<lparr>BoW_k = 2, BoW_bow = Some [''b'', ''a'']\<rparr> = Some bow
           \<and> fst (BoW_transform \<lparr>BoW_k = 2, BoW_bow = Some [''b'', ''a'']\<rparr> [''a b'', ''c c a'']) = Inr rows
           \<and> length rows = length [''a b'', ''c c a'']
           \<and> (\<forall>j < length [''a b'', ''c c a''].
                 BoW_text_to_bow \<lparr>BoW_k = 2, BoW_bow = Some [''b'', ''a'']\<rparr> ([''a b'', ''c c a''] ! j) = Inr (rows ! j)
               \<and> length (rows ! j) = length bow
               \<and> (\<forall>i < length bow. rows ! j ! i = real (count_list (split ([''a b'', ''c c a''] ! j)) (bow ! i)))
               \<and> sum_list (rows ! j) = real (length (filter (\<lambda>t. t \<in> set bow) (split ([''a b'', ''c c a''] ! j))))))"
proof -
  let ?self = "\<lparr>BoW_k = 2, BoW_bow = Some [''b'', ''a'']\<rparr>"
  let ?X = "[''a b'', ''c c a'']"
  have h1: "set_order remdups" by (simp add: set_order_def)
  have h2: "BoW_fit remdups (BoW_init 2) [''a b b'', ''b c''] = Inr ?self"
    by code_simp
  have h3: "?X \<noteq> []" by simp
  have h4: "\<forall>doc \<in> set ?X. \<forall>w \<in> set [''b'', ''a'']. count_list (split doc) w \<le> 2 ^ 24"
    by (simp add: split_def isspace_def)
  have h5: "\<forall>doc \<in> set ?X. length (filter (\<lambda>t. t \<in> set [''b'', ''a'']) (split doc)) \<le> 2 ^ 24"
    by (simp add: split_def isspace_def)
  have one: "float32 1 = 1" using float32_count [of 1] by simp
  have ev: "fst (BoW_transform ?self ?X) = Inr [[1, 1], [0, 1]]"
    by (simp add: BoW_transform_def BoW_text_to_bow_def dict_fromkeys_def dict_incr_def
        dict_values_def np_stack_def split_def isspace_def float32_zero one)
  obtain bow rows where b: "BoW_get_vocabulary ?self = Some bow"
    and r: "fst (BoW_transform ?self ?X) = Inr rows" "length rows = length ?X"
    and e: "\<forall>j < length ?X.
                 BoW_text_to_bow ?self (?X ! j) = Inr (rows ! j)
               \<and> length (rows ! j) = length bow
               \<and> (\<forall>i < length bow.
                     rows ! j ! i = float32 (real (count_list (split (?X ! j)) (bow ! i)))
                   \<and> (count_list (split (?X ! j)) (bow ! i) \<le> 2 ^ 24 \<longrightarrow>
                        rows ! j ! i = real (count_list (split (?X ! j)) (bow ! i))))
               \<and> (length (filter (\<lambda>t. t \<in> set bow) (split (?X ! j))) \<le> 2 ^ 24 \<longrightarrow>
                    sum_list (rows ! j)
                    = real (length (filter (\<lambda>t. t \<in> set bow) (split (?X ! j)))))"
    using BoW_transform_counts [OF h1 h2 h3] by blast
  have bow: "bow = [''b'', ''a'']" using b by (simp add: BoW_get_vocabulary_def)
  have small: "count_list (split (?X ! j)) (bow ! i) \<le> 2 ^ 24"
    if "j < length ?X" "i < length bow" for j i
    using h4 that unfolding bow by (metis nth_mem)
  have few: "length (filter (\<lambda>t. t \<in> set bow) (split (?X ! j))) \<le> 2 ^ 24"
    if "j < length ?X" for j
    using h5 that unfolding bow by (metis nth_mem)
  have "\<forall>j < length ?X.
                 BoW_text_to_bow ?self (?X ! j) = Inr (rows ! j)
               \<and> length (rows ! j) = length bow
               \<and> (\<forall>i < length bow. rows ! j ! i = real (count_list (split (?X ! j)) (bow ! i)))
               \<and> sum_list (rows ! j) = real (length (filter (\<lambda>t. t \<in> set bow) (split (?X ! j))))"
    using e small few by blast
  with b r have "\<exists>bow rows. BoW_get_vocabulary ?self = Some bow
           \<and> fst (BoW_transform ?self ?X) = Inr rows
           \<and> length rows = length ?X
           \<and> (\<forall>j < length ?X.
                 BoW_text_to_bow ?self (?X ! j) = Inr (rows ! j)
               \<and> length (rows ! j) = length bow
               \<and> (\<forall>i < length bow. rows ! j ! i = real (count_list (split (?X ! j)) (bow ! i)))
               \<and> sum_list (rows ! j) = real (length (filter (\<lambda>t. t \<in> set bow) (split (?X ! j)))))"
    by blast
  moreover have "length (filter (\<lambda>t. t \<in> set [''b'', ''a'']) (split ''a b'')) \<le> 2 ^ 24"
    "length (filter (\<lambda>t. t \<in> set [''b'', ''a'']) (split ''c c a'')) \<le> 2 ^ 24"
    using h5 by simp_all
  ultimately show ?thesis using h1 h2 h3 ev by (intro conjI)
qed

lemma split_repeated: "split (concat (replicate n ''a '')) = replicate n ''a''"
  by (induction n) (simp_all add: split_def isspace_def)

lemma count_list_replicate_same: "count_list (replicate n x) x = n"
  by (induction n) simp_all

text \<open>A text of \<open>2 ^ 24 + 1\<close> tokens \<^verbatim>\<open>a\<close>: the token occurs 16777217 times and the entry
  of the row is 16777216.\<close>

theorem BoW_transform_rounds_counterexample:
  "BoW_fit remdups (BoW_init 1) [''a''] = Inr \<lparr>BoW_k = 1, BoW_bow = Some [''a'']\<rparr>
   \<and> count_list (split (concat (replicate 16777217 ''a ''))) ''a'' = 16777217
   \<and> BoW_text_to_bow \<lparr>BoW_k = 1, BoW_bow = Some [''a'']\<rparr> (concat (replicate 16777217 ''a ''))
       = Inr [16777216]"
proof -
  let ?doc = "concat (replicate 16777217 ''a '')"
  have fit: "BoW_fit remdups (BoW_init 1) [''a''] = Inr \<lparr>BoW_k = 1, BoW_bow = Some [''a'']\<rparr>"
    by code_simp
  have cnt: "count_list (split ?doc) ''a'' = 16777217"
    by (simp only: split_repeated count_list_replicate_same)
  have "BoW_text_to_bow \<lparr>BoW_k = 1, BoW_bow = Some [''a'']\<rparr> ?doc
          = Inr (map (\<lambda>w. float32 (real (count_list (split ?doc) w))) [''a''])"
    by (rule BoW_text_to_bow_closed) simp_all
  also have "\<dots> = Inr [float32 (real (count_list (split ?doc) ''a''))]"
    by (simp only: list.map)
  also have "\<dots> = Inr [float32 16777217]"
    by (simp only: cnt of_nat_numeral)
  also have "\<dots> = Inr [16777216]"
    by (simp only: float32_first_inexact)
  finally show ?thesis using fit cnt by (intro conjI)
qed

subsection \<open>The empty corpus\<close>

lemma set_order_Nil: "set_order iter \<Longrightarrow> iter [] = []"
  by (metis set_order_def set_empty)

lemma split_Nil: "split [] = []"
  by (simp add: split_def)

lemma BoW_fit_Nil: "set_order iter \<Longrightarrow> BoW_fit iter self [] = Inr (self\<lparr>BoW_bow := Some []\<rparr>)"
  by (simp add: BoW_fit_def split_Nil set_order_Nil dict_fromkeys_def sorted_desc_def
      dict_keys_def slice_to_def)

lemma TfIdf_fit_Nil: "set_order iter \<Longrightarrow> TfIdf_fit iter self [] = Inr (self\<lparr>TfIdf_idf := Some []\<rparr>)"
  by (simp add: TfIdf_fit_def split_Nil set_order_Nil dict_fromkeys_def restrict_top_def
      sorted_desc_def split: option.split)

lemma count_known_Nil: "count_known [] d ws = Inr d"
  by (induction ws) auto

lemma TfIdf_text_Nil: "TfIdf_idf self = Some [] \<Longrightarrow> TfIdf_text_to_tf_idf self doc = Inr []"
  by (simp add: TfIdf_text_to_tf_idf_def dict_keys_def dict_fromkeys_def count_known_Nil
      normalize_row_def)

lemma TfIdf_transform_Nil:
  assumes "TfIdf_idf self = Some []" and "X \<noteq> []"
  shows "TfIdf_transform self X = (Inr (replicate (length X) []), self)"
proof -
  have "collect (TfIdf_text_to_tf_idf self) X = Inr (map (\<lambda>doc. []) X)"
    by (rule collect_closed) (rule TfIdf_text_Nil [OF assms(1)])
  moreover have "np_stack (map (\<lambda>doc. []) X) = Inr (map (\<lambda>doc. []) X)"
    by (rule np_stack_same_length [where n = 0]) (use assms(2) in auto)
  ultimately show ?thesis using assms(1) by (simp add: TfIdf_transform_def map_replicate_const)
qed

text \<open>Claim C8, for a batch that holds at least one text: \<^verbatim>\<open>fit\<close> on the empty corpus
  stores an empty vocabulary in a BoW and an empty table in a TfIdf, and \<^verbatim>\<open>transform\<close> then
  returns one row of width zero for each text of the batch.\<close>

theorem fit_empty_corpus:
  assumes "set_order iter" and "X \<noteq> []"
  shows "\<exists>b t. BoW_fit iter bself [] = Inr b \<and> BoW_get_vocabulary b = Some []
           \<and> fst (BoW_transform b X) = Inr (replicate (length X) [])
           \<and> TfIdf_fit iter tself [] = Inr t \<and> TfIdf_idf t = Some []
           \<and> fst (TfIdf_transform t X) = Inr (replicate (length X) [])"
proof -
  let ?b = "bself\<lparr>BoW_bow := Some []\<rparr>"
  let ?t = "tself\<lparr>TfIdf_idf := Some []\<rparr>"
  have "BoW_transform ?b X
        = (Inr (map (\<lambda>doc. map (\<lambda>w. float32 (real (count_list (split doc) w))) []) X), ?b)"
    by (rule BoW_transform_closed) (use assms(2) in simp_all)
  then have b: "fst (BoW_transform ?b X) = Inr (replicate (length X) [])"
    by (simp add: map_replicate_const)
  have t: "fst (TfIdf_transform ?t X) = Inr (replicate (length X) [])"
    using TfIdf_transform_Nil [of ?t X] assms(2) by simp
  show ?thesis
    using b t BoW_fit_Nil [OF assms(1)] TfIdf_fit_Nil [OF assms(1)]
    by (simp add: BoW_get_vocabulary_def)
qed

theorem fit_empty_corpus_witness:
  "set_order remdups \<and> [''a b'', []] \<noteq> []
   \<and> (\<exists>b t. BoW_fit remdups (BoW_init 3) [] = Inr b \<and> BoW_get_vocabulary b = Some []
           \<and> fst (BoW_transform b [''a b'', []]) = Inr (replicate (length [''a b'', []]) [])
           \<and> TfIdf_fit remdups (TfIdf_init (Some 3) True) [] = Inr t \<and> TfIdf_idf t = Some []
           \<and> fst (TfIdf_transform t [''a b'', []]) = Inr (replicate (length [''a b'', []]) []))"
proof -
  have h1: "set_order remdups" by (simp add: set_order_def)
  have h2: "[''a b'', []] \<noteq> []" by simp
  show ?thesis using h1 h2 fit_empty_corpus [OF h1 h2] by blast
qed

text \<open>On the empty batch \<^verbatim>\<open>transform\<close> produces no rows at all: \<^verbatim>\<open>np.stack\<close> of the empty
  list raises ValueError.\<close>

theorem transform_empty_batch_counterexample:
  "BoW_fit remdups (BoW_init 2) [] = Inr \<lparr>BoW_k = 2, BoW_bow = Some []\<rparr>
   \<and> fst (BoW_transform \<lparr>BoW_k = 2, BoW_bow = Some []\<rparr> []) = Inl ValueError"
  by (simp add: BoW_fit_Nil set_order_def BoW_init_def BoW_transform_def np_stack_def)

subsection \<open>transform reads the object only\<close>

text \<open>Claim C9: \<^verbatim>\<open>transform\<close> leaves the object as it found it, the vocabulary of a BoW
  and the table of a TfIdf in particular, and a second call on the same input returns what
  the first returned. This holds for every object, fit or not.\<close>

theorem transform_frame:
  "snd (BoW_transform b X) = b
   \<and> BoW_get_vocabulary (snd (BoW_transform b X)) = BoW_get_vocabulary b
   \<and> fst (BoW_transform (snd (BoW_transform b X)) X) = fst (BoW_transform b X)
   \<and> snd (TfIdf_transform t X) = t
   \<and> TfIdf_idf (snd (TfIdf_transform t X)) = TfIdf_idf t
   \<and> fst (TfIdf_transform (snd (TfIdf_transform t X)) X) = fst (TfIdf_transform t X)"
proof -
  have b: "snd (BoW_transform b X) = b"
    by (simp add: BoW_transform_def split: option.split sum.split)
  have t: "snd (TfIdf_transform t X) = t"
    by (simp add: TfIdf_transform_def split: option.split sum.split)
  show ?thesis by (simp add: b t)
qed

theorem transform_frame_witness:
  "snd (BoW_transform \<lparr>BoW_k = 2, BoW_bow = Some [''b'', ''a'']\<rparr> [''a b'']) = \<lparr>BoW_k = 2, BoW_bow = Some [''b'', ''a'']\<rparr>
   \<and> fst (BoW_transform (snd (BoW_transform \<lparr>BoW_k = 2, BoW_bow = Some [''b'', ''a'']\<rparr> [''a b''])) [''a b''])
       = fst (BoW_transform \<lparr>BoW_k = 2, BoW_bow = Some [''b'', ''a'']\<rparr> [''a b''])
   \<and> TfIdf_idf (snd (TfIdf_transform (TfIdf_init None True) [''a b''])) = TfIdf_idf (TfIdf_init None True)
   \<and> fst (TfIdf_transform (snd (TfIdf_transform (TfIdf_init None True) [''a b''])) [''a b''])
       = fst (TfIdf_transform (TfIdf_init None True) [''a b''])"
  using transform_frame [of "\<lparr>BoW_k = 2, BoW_bow = Some [''b'', ''a'']\<rparr>" "[''a b'']" "TfIdf_init None True"]
  by simp

subsection \<open>transform before fit\<close>

text \<open>Claim C2, evaluated: on a fresh BoW \<^verbatim>\<open>transform\<close> raises AssertionError, for every
  input. On a fresh TfIdf it does not: \<^verbatim>\<open>__init__\<close> stores an empty dictionary, the test
  \<^verbatim>\<open>self.idf is not None\<close> passes, and \<^verbatim>\<open>transform(["a"])\<close> returns one row of width
  zero.\<close>

theorem transform_before_fit:
  "fst (BoW_transform (BoW_init k) X) = Inl AssertionError
   \<and> fst (TfIdf_transform (TfIdf_init None False) [''a'']) = Inr [[]]"
  by (simp add: BoW_transform_def BoW_init_def TfIdf_init_def TfIdf_transform_Nil)

subsection \<open>TfIdf.fit\<close>

lemma doc_freq_le: "doc_freq X w \<le> length X"
  by (simp add: doc_freq_def)

lemma doc_freq_pos: "w \<in> tokens X \<Longrightarrow> 0 < doc_freq X w"
  by (auto simp: doc_freq_def tokens_def filter_empty_conv)

lemma keys_scores: "map fst (map (\<lambda>(word, df). (word, g df)) d) = map fst d"
  by (induction d) auto

text \<open>The table that \<^verbatim>\<open>TfIdf.fit\<close> stores, before scoring: all tokens, or the first
  \<open>k\<close> by descending document frequency.\<close>

lemma TfIdf_fit_table:
  assumes "set_order iter" and "TfIdf_fit iter self0 X = Inr self"
  shows "\<exists>idf2. TfIdf_idf self = Some (map (\<lambda>(word, df). (word, idf_score (length X) df)) idf2)
           \<and> distinct (map fst idf2) \<and> fst ` set idf2 \<subseteq> tokens X
           \<and> (\<forall>p \<in> set idf2. snd p = doc_freq X (fst p))
           \<and> TfIdf_normalize self = TfIdf_normalize self0 \<and> TfIdf_k self = TfIdf_k self0"
proof -
  let ?vocab = "iter (split (join X))"
  let ?idf1 = "map (\<lambda>w. (w, doc_freq X w)) ?vocab"
  let ?idf2 = "case TfIdf_k self0 of None \<Rightarrow> ?idf1
               | Some k \<Rightarrow> if k \<noteq> 0 then take (nat k) (sorted_desc ?idf1) else ?idf1"
  have v: "distinct ?vocab" "set ?vocab = tokens X"
    using assms(1) by (simp_all add: set_order_def set_split_join)
  have self: "self = self0\<lparr>TfIdf_idf := Some (map (\<lambda>(word, df). (word, idf_score (length X) df)) ?idf2)\<rparr>"
    using assms(2) TfIdf_fit_closed [OF assms(1), of self0 X] by (simp add: Let_def)
  have d1: "distinct (map fst ?idf1)" unfolding keys_pairs using v(1) .
  have dk: "distinct (map fst (sorted_desc ?idf1))"
    using sorted_desc_props(1) [OF v(1), of "doc_freq X"] by (simp add: dict_keys_def)
  have sub: "set ?idf2 \<subseteq> set ?idf1"
    using set_take_subset [of _ "sorted_desc ?idf1"]
    by (auto simp: sorted_desc_def split: option.split)
  have "distinct (map fst ?idf2)"
    using d1 dk by (auto simp: distinct_take take_map [symmetric] split: option.split)
  moreover have "fst ` set ?idf2 \<subseteq> tokens X" using sub v(2) by force
  moreover have "\<forall>p \<in> set ?idf2. snd p = doc_freq X (fst p)" using sub by auto
  ultimately show ?thesis using self by auto
qed

lemma ln_idf_negative: "0 < N \<Longrightarrow> ln (real N / real (N + 1)) < 0"
  by (rule ln_less_zero) simp_all

text \<open>Claim C1: \<^verbatim>\<open>TfIdf.fit\<close> returns; its loops count, for each distinct whitespace token
  of the corpus, the documents that hold the token at least once; each token kept in the
  table has the score \<open>ln (N / (df + 1))\<close>, with \<open>N\<close> the number of documents and \<open>df\<close> the
  document frequency of the token; a kept token that occurs in all \<open>N\<close> documents has the
  score \<open>ln (N / (N + 1))\<close>, which is below zero. With \<open>k\<close> unset every token is kept.\<close>

theorem TfIdf_fit_scores:
  assumes "set_order iter"
  shows "\<exists>self' idf. TfIdf_fit iter self X = Inr self' \<and> TfIdf_idf self' = Some idf
           \<and> count_docs iter (dict_fromkeys (iter (split (join X))) 0) X
               = Inr (map (\<lambda>w. (w, doc_freq X w)) (iter (split (join X))))
           \<and> (\<forall>(w, s) \<in> set idf.
                 w \<in> tokens X
               \<and> s = ln (real (length X) / real (doc_freq X w + 1))
               \<and> (doc_freq X w = length X \<longrightarrow>
                    s = ln (real (length X) / real (length X + 1)) \<and> s < 0))
           \<and> (TfIdf_k self = None \<longrightarrow> set (dict_keys idf) = tokens X)"
proof -
  let ?vocab = "iter (split (join X))"
  let ?idf0 = "map (\<lambda>w. (w, 0::nat)) ?vocab"
  obtain self' where fit: "TfIdf_fit iter self X = Inr self'"
    using TfIdf_fit_closed [OF assms] by blast
  obtain idf2 where t: "TfIdf_idf self' = Some (map (\<lambda>(word, df). (word, idf_score (length X) df)) idf2)"
      "fst ` set idf2 \<subseteq> tokens X" "\<forall>p \<in> set idf2. snd p = doc_freq X (fst p)"
    using TfIdf_fit_table [OF assms fit] by blast
  let ?tbl = "map (\<lambda>(word, df). (word, idf_score (length X) df)) idf2"
  have v: "distinct ?vocab" "set ?vocab = tokens X"
    using assms by (simp_all add: set_order_def set_split_join)
  have r: "dict_fromkeys ?vocab (0::nat) = ?idf0" using v(1) by (rule dict_fromkeys_distinct)
  have d1: "distinct (map fst ?idf0)" unfolding keys_pairs using v(1) .
  have s1: "tokens X \<subseteq> fst ` set ?idf0" using v(2) by force
  have "count_docs iter ?idf0 X = Inr (map (\<lambda>(k, c). (k, c + doc_freq X k)) ?idf0)"
    using assms d1 s1 by (rule count_docs_closed)
  then have loop: "count_docs iter (dict_fromkeys ?vocab 0) X = Inr (map (\<lambda>w. (w, doc_freq X w)) ?vocab)"
    by (simp only: map_zero_add r)
  have entry: "w \<in> tokens X \<and> s = ln (real (length X) / real (doc_freq X w + 1))
               \<and> (doc_freq X w = length X \<longrightarrow>
                    s = ln (real (length X) / real (length X + 1)) \<and> s < 0)"
    if mem: "(w, s) \<in> set ?tbl" for w s
  proof -
    obtain df where p: "(w, df) \<in> set idf2" "s = idf_score (length X) df" using mem by auto
    have w: "w \<in> tokens X" using p(1) t(2) by force
    have df: "df = doc_freq X w" using p(1) t(3) by force
    have s: "s = ln (real (length X) / real (doc_freq X w + 1))"
      using p(2) df by (simp add: idf_score_def idf_arg_def)
    have "s < 0" if full: "doc_freq X w = length X"
    proof -
      have "0 < length X" using doc_freq_pos [OF w] full by simp
      then show ?thesis unfolding s full by (rule ln_idf_negative)
    qed
    with w s show ?thesis by simp
  qed
  have all: "set (dict_keys ?tbl) = tokens X" if unset: "TfIdf_k self = None"
  proof -
    have "TfIdf_fit iter self X = Inr (self\<lparr>TfIdf_idf := Some (map (\<lambda>(word, df). (word, idf_score (length X) df))
            (map (\<lambda>w. (w, doc_freq X w)) ?vocab))\<rparr>)"
      using TfIdf_fit_closed [OF assms, of self X] unset by simp
    with fit have "self' = self\<lparr>TfIdf_idf := Some (map (\<lambda>(word, df). (word, idf_score (length X) df))
            (map (\<lambda>w. (w, doc_freq X w)) ?vocab))\<rparr>"
      by simp
    then have "TfIdf_idf self' = Some (map (\<lambda>(word, df). (word, idf_score (length X) df))
            (map (\<lambda>w. (w, doc_freq X w)) ?vocab))"
      by (simp del: map_map)
    with t(1) have "?tbl = map (\<lambda>(word, df). (word, idf_score (length X) df)) (map (\<lambda>w. (w, doc_freq X w)) ?vocab)"
      by (simp del: map_map)
    then have "dict_keys ?tbl = ?vocab" by (simp only: dict_keys_def keys_scores keys_pairs)
    with v(2) show ?thesis by simp
  qed
  have entries: "\<forall>(w, s) \<in> set ?tbl.
                 w \<in> tokens X
               \<and> s = ln (real (length X) / real (doc_freq X w + 1))
               \<and> (doc_freq X w = length X \<longrightarrow>
                    s = ln (real (length X) / real (length X + 1)) \<and> s < 0)"
  proof (rule ballI)
    fix p assume "p \<in> set ?tbl"
    then have "(fst p, snd p) \<in> set ?tbl" by simp
    from entry [OF this] show "case p of (w, s) \<Rightarrow>
                 w \<in> tokens X
               \<and> s = ln (real (length X) / real (doc_freq X w + 1))
               \<and> (doc_freq X w = length X \<longrightarrow>
                    s = ln (real (length X) / real (length X + 1)) \<and> s < 0)"
      unfolding case_prod_unfold .
  qed
  show ?thesis
  proof (intro exI conjI)
    show "TfIdf_fit iter self X = Inr self'" by (rule fit)
    show "TfIdf_idf self' = Some ?tbl" by (rule t(1))
    show "count_docs iter (dict_fromkeys ?vocab 0) X = Inr (map (\<lambda>w. (w, doc_freq X w)) ?vocab)"
      by (rule loop)
    show "\<forall>(w, s) \<in> set ?tbl.
                 w \<in> tokens X
               \<and> s = ln (real (length X) / real (doc_freq X w + 1))
               \<and> (doc_freq X w = length X \<longrightarrow>
                    s = ln (real (length X) / real (length X + 1)) \<and> s < 0)"
      by (rule entries)
    show "TfIdf_k self = None \<longrightarrow> set (dict_keys ?tbl) = tokens X" using all by simp
  qed
qed

lemma TfIdf_fit_example:
  "TfIdf_fit remdups (TfIdf_init None False) [''a b'', ''a'']
     = Inr \<lparr>TfIdf_k = None, TfIdf_normalize = False,
            TfIdf_idf = Some [(''b'', ln (2 / 2)), (''a'', ln (2 / 3))]\<rparr>"
  by (simp add: TfIdf_fit_def TfIdf_init_def split_def isspace_def dict_fromkeys_def
      dict_incr_def idf_score_def idf_arg_def)

theorem TfIdf_fit_scores_witness:
  "set_order remdups
   \<and> TfIdf_fit remdups (TfIdf_init None False) [''a b'', ''a'']
       = Inr \<lparr>TfIdf_k = None, TfIdf_normalize = False,
              TfIdf_idf = Some [(''b'', ln (2 / 2)), (''a'', ln (2 / 3))]\<rparr>
   \<and> (\<exists>self' idf. TfIdf_fit remdups (TfIdf_init None False) [''a b'', ''a''] = Inr self'
           \<and> TfIdf_idf self' = Some idf
           \<and> count_docs remdups (dict_fromkeys (remdups (split (join [''a b'', ''a'']))) 0) [''a b'', ''a'']
               = Inr (map (\<lambda>w. (w, doc_freq [''a b'', ''a''] w)) (remdups (split (join [''a b'', ''a'']))))
           \<and> (\<forall>(w, s) \<in> set idf.
                 w \<in> tokens [''a b'', ''a'']
               \<and> s = ln (real (length [''a b'', ''a'']) / real (doc_freq [''a b'', ''a''] w + 1))
               \<and> (doc_freq [''a b'', ''a''] w = length [''a b'', ''a''] \<longrightarrow>
                    s = ln (real (length [''a b'', ''a'']) / real (length [''a b'', ''a''] + 1)) \<and> s < 0))
           \<and> (TfIdf_k (TfIdf_init None False) = None \<longrightarrow> set (dict_keys idf) = tokens [''a b'', ''a'']))"
proof -
  have h1: "set_order remdups" by (simp add: set_order_def)
  show ?thesis
    using h1 TfIdf_fit_example
      TfIdf_fit_scores [OF h1, of "TfIdf_init None False" "[''a b'', ''a'']"]
    by (intro conjI)
qed

text \<open>Claim C6, with the sign as the formula gives it: for each token kept by
  \<^verbatim>\<open>TfIdf.fit\<close> the document frequency \<open>df\<close> is at most \<open>N\<close>, the argument \<open>N / (df + 1)\<close>
  of the logarithm is positive (the divisor is not zero), so the score is defined; the
  score is not negative exactly when \<open>df < N\<close>.\<close>

theorem idf_score_sign:
  assumes "set_order iter"
  shows "\<exists>self' idf. TfIdf_fit iter self X = Inr self' \<and> TfIdf_idf self' = Some idf
           \<and> (\<forall>(w, s) \<in> set idf.
                 doc_freq X w \<le> length X
               \<and> 0 < idf_arg (length X) (doc_freq X w)
               \<and> s = idf_score (length X) (doc_freq X w)
               \<and> (0 \<le> s \<longleftrightarrow> doc_freq X w < length X))"
proof -
  obtain self' where fit: "TfIdf_fit iter self X = Inr self'"
    using TfIdf_fit_closed [OF assms] by blast
  obtain idf2 where t: "TfIdf_idf self' = Some (map (\<lambda>(word, df). (word, idf_score (length X) df)) idf2)"
      "fst ` set idf2 \<subseteq> tokens X" "\<forall>p \<in> set idf2. snd p = doc_freq X (fst p)"
    using TfIdf_fit_table [OF assms fit] by blast
  let ?tbl = "map (\<lambda>(word, df). (word, idf_score (length X) df)) idf2"
  have entry: "doc_freq X w \<le> length X
               \<and> 0 < idf_arg (length X) (doc_freq X w)
               \<and> s = idf_score (length X) (doc_freq X w)
               \<and> (0 \<le> s \<longleftrightarrow> doc_freq X w < length X)"
    if mem: "(w, s) \<in> set ?tbl" for w s
  proof -
    obtain df where p: "(w, df) \<in> set idf2" "s = idf_score (length X) df" using mem by auto
    have w: "w \<in> tokens X" using p(1) t(2) by force
    have df: "df = doc_freq X w" using p(1) t(3) by force
    have le: "doc_freq X w \<le> length X" by (rule doc_freq_le)
    have N: "0 < length X" using doc_freq_pos [OF w] le by linarith
    then have arg: "0 < idf_arg (length X) (doc_freq X w)" by (simp add: idf_arg_def)
    have "1 \<le> idf_arg (length X) (doc_freq X w) \<longleftrightarrow> doc_freq X w < length X"
      by (simp add: idf_arg_def le_divide_eq) linarith
    then have "0 \<le> idf_score (length X) (doc_freq X w) \<longleftrightarrow> doc_freq X w < length X"
      using arg by (simp add: idf_score_def)
    with le arg p(2) df show ?thesis by simp
  qed
  have entries: "\<forall>(w, s) \<in> set ?tbl.
                 doc_freq X w \<le> length X
               \<and> 0 < idf_arg (length X) (doc_freq X w)
               \<and> s = idf_score (length X) (doc_freq X w)
               \<and> (0 \<le> s \<longleftrightarrow> doc_freq X w < length X)"
  proof (rule ballI)
    fix p assume "p \<in> set ?tbl"
    then have "(fst p, snd p) \<in> set ?tbl" by simp
    from entry [OF this] show "case p of (w, s) \<Rightarrow>
                 doc_freq X w \<le> length X
               \<and> 0 < idf_arg (length X) (doc_freq X w)
               \<and> s = idf_score (length X) (doc_freq X w)
               \<and> (0 \<le> s \<longleftrightarrow> doc_freq X w < length X)"
      unfolding case_prod_unfold .
  qed
  show ?thesis using fit t(1) entries by (intro exI conjI)
qed

theorem idf_score_sign_witness:
  "set_order remdups
   \<and> TfIdf_fit remdups (TfIdf_init None False) [''a b'', ''a'']
       = Inr \<lparr>TfIdf_k = None, TfIdf_normalize = False,
              TfIdf_idf = Some [(''b'', ln (2 / 2)), (''a'', ln (2 / 3))]\<rparr>
   \<and> (\<exists>self' idf. TfIdf_fit remdups (TfIdf_init None False) [''a b'', ''a''] = Inr self'
           \<and> TfIdf_idf self' = Some idf
           \<and> (\<forall>(w, s) \<in> set idf.
                 doc_freq [''a b'', ''a''] w \<le> length [''a b'', ''a'']
               \<and> 0 < idf_arg (length [''a b'', ''a'']) (doc_freq [''a b'', ''a''] w)
               \<and> s = idf_score (length [''a b'', ''a'']) (doc_freq [''a b'', ''a''] w)
               \<and> (0 \<le> s \<longleftrightarrow> doc_freq [''a b'', ''a''] w < length [''a b'', ''a''])))"
proof -
  have h1: "set_order remdups" by (simp add: set_order_def)
  show ?thesis
    using h1 TfIdf_fit_example
      idf_score_sign [OF h1, of "TfIdf_init None False" "[''a b'', ''a'']"]
    by (intro conjI)
qed

text \<open>A corpus of one document \<^verbatim>\<open>"a"\<close>: the document frequency of the token is 1, not
  above \<open>N = 1\<close>, and its score \<open>ln (1 / 2)\<close> is negative.\<close>

theorem idf_score_negative_counterexample:
  "TfIdf_fit remdups (TfIdf_init None False) [''a'']
     = Inr \<lparr>TfIdf_k = None, TfIdf_normalize = False, TfIdf_idf = Some [(''a'', ln (1 / 2))]\<rparr>
   \<and> doc_freq [''a''] ''a'' = 1 \<and> doc_freq [''a''] ''a'' \<le> length [''a'']
   \<and> ln (1 / 2) < (0::real)"
  by (simp add: TfIdf_fit_def TfIdf_init_def split_def isspace_def dict_fromkeys_def
      dict_incr_def idf_score_def idf_arg_def doc_freq_def)

lemma sorted_wrt_take_drop:
  assumes "sorted_wrt R ys" and "v \<in> set (take n ys)" and "w \<in> set (drop n ys)"
  shows "R v w"
proof -
  have "sorted_wrt R (take n ys @ drop n ys)" using assms(1) by simp
  then show ?thesis using assms(2,3) unfolding sorted_wrt_append by blast
qed

text \<open>Claim C5, for \<open>k\<close> unset or set to a positive number: \<^verbatim>\<open>TfIdf.fit\<close> returns. With
  \<open>k\<close> unset the table has one entry for each distinct token of the corpus. With a positive
  \<open>k\<close> the table has \<open>min k n\<close> entries, at most \<open>k\<close>; a token of the corpus that is not
  in the table cannot be looked up in it, and its document frequency is at most that of
  every token in the table; the tokens in the table are scored by the formula on their
  document frequency.\<close>

theorem TfIdf_fit_table_size:
  assumes "set_order iter"
  shows "\<exists>self' idf. TfIdf_fit iter self X = Inr self' \<and> TfIdf_idf self' = Some idf
           \<and> (TfIdf_k self = None \<longrightarrow> length idf = card (tokens X))
           \<and> (\<forall>k > 0. TfIdf_k self = Some k \<longrightarrow>
                 int (length idf) \<le> k
               \<and> int (length idf) = min k (int (card (tokens X)))
               \<and> set (dict_keys idf) \<subseteq> tokens X
               \<and> (\<forall>w \<in> tokens X - set (dict_keys idf).
                     dict_get idf w = None
                   \<and> (\<forall>v \<in> set (dict_keys idf). doc_freq X w \<le> doc_freq X v))
               \<and> (\<forall>(w, s) \<in> set idf. s = idf_score (length X) (doc_freq X w)))"
proof -
  let ?vocab = "iter (split (join X))"
  let ?dfs = "map (\<lambda>w. (w, doc_freq X w)) ?vocab"
  let ?ys = "dict_keys (sorted_desc ?dfs)"
  let ?score = "\<lambda>(word, df). (word, idf_score (length X) df)"
  have v: "distinct ?vocab" "set ?vocab = tokens X"
    using assms by (simp_all add: set_order_def set_split_join)
  have card: "length ?vocab = card (tokens X)" using v by (metis distinct_card)
  obtain self' where fit: "TfIdf_fit iter self X = Inr self'"
    using TfIdf_fit_closed [OF assms] by blast
  obtain idf2 where t: "TfIdf_idf self' = Some (map ?score idf2)"
      "\<forall>p \<in> set idf2. snd p = doc_freq X (fst p)"
    using TfIdf_fit_table [OF assms fit] by blast
  have closed: "self' = self\<lparr>TfIdf_idf := Some (map ?score
               (case TfIdf_k self of None \<Rightarrow> ?dfs
                | Some k \<Rightarrow> if k \<noteq> 0 then take (nat k) (sorted_desc ?dfs) else ?dfs))\<rparr>"
    using fit TfIdf_fit_closed [OF assms, of self X] by (simp add: Let_def)
  have unset: "length (map ?score idf2) = card (tokens X)" if none: "TfIdf_k self = None"
  proof -
    have "TfIdf_idf self' = Some (map ?score ?dfs)" using closed none by (simp del: map_map)
    with t(1) have "map ?score idf2 = map ?score ?dfs" by (simp del: map_map)
    then have "length (map ?score idf2) = length (map ?score ?dfs)" by (rule arg_cong)
    then show ?thesis using card by simp
  qed
  have set: "int (length (map ?score idf2)) \<le> k
               \<and> int (length (map ?score idf2)) = min k (int (card (tokens X)))
               \<and> set (dict_keys (map ?score idf2)) \<subseteq> tokens X
               \<and> (\<forall>w \<in> tokens X - set (dict_keys (map ?score idf2)).
                     dict_get (map ?score idf2) w = None
                   \<and> (\<forall>v \<in> set (dict_keys (map ?score idf2)). doc_freq X w \<le> doc_freq X v))"
    if pos: "0 < k" and some: "TfIdf_k self = Some k" for k
  proof -
    have "TfIdf_idf self' = Some (map ?score (take (nat k) (sorted_desc ?dfs)))"
      using closed pos some by (simp del: map_map)
    with t(1) have tbl: "map ?score idf2 = map ?score (take (nat k) (sorted_desc ?dfs))"
      by (simp del: map_map)
    have keys: "dict_keys (map ?score idf2) = take (nat k) ?ys"
      unfolding tbl by (simp only: dict_keys_def keys_scores take_map)
    have "length (dict_keys (map ?score idf2)) = min (nat k) (card (tokens X))"
      unfolding keys using card by (simp add: sorted_desc_props(3) [OF v(1)] min_def)
    then have len: "length (map ?score idf2) = min (nat k) (card (tokens X))"
      by (simp add: dict_keys_def)
    have l1: "int (length (map ?score idf2)) = min k (int (card (tokens X)))"
      using len pos by linarith
    have sub: "set (dict_keys (map ?score idf2)) \<subseteq> tokens X"
      unfolding keys using set_take_subset [of "nat k" ?ys] sorted_desc_props(2) [OF v(1), of "doc_freq X"] v(2)
      by simp
    have dropped: "dict_get (map ?score idf2) w = None
                   \<and> (\<forall>v \<in> set (dict_keys (map ?score idf2)). doc_freq X w \<le> doc_freq X v)"
      if w: "w \<in> tokens X - set (dict_keys (map ?score idf2))" for w
    proof -
      have "w \<notin> set (dict_keys (map ?score idf2))" using w by simp
      then have "w \<notin> fst ` set (map ?score idf2)"
        unfolding dict_keys_def set_map .
      then have none: "dict_get (map ?score idf2) w = None" by (rule dict_get_None)
      have "w \<in> set ?ys" using w sorted_desc_props(2) [OF v(1), of "doc_freq X"] v(2) by simp
      moreover have "set ?ys = set (take (nat k) ?ys) \<union> set (drop (nat k) ?ys)"
        by (metis append_take_drop_id set_append)
      moreover have "w \<notin> set (take (nat k) ?ys)" using w unfolding keys by simp
      ultimately have wd: "w \<in> set (drop (nat k) ?ys)" by blast
      have "doc_freq X w \<le> doc_freq X v" if "v \<in> set (take (nat k) ?ys)" for v
        using sorted_wrt_take_drop [OF sorted_desc_props(4) [OF v(1), of "doc_freq X"] that wd] .
      with none show ?thesis unfolding keys by simp
    qed
    show ?thesis using l1 sub dropped by simp
  qed
  have scores: "\<forall>(w, s) \<in> set (map ?score idf2). s = idf_score (length X) (doc_freq X w)"
    using t(2) by auto
  show ?thesis
  proof (intro exI conjI)
    show "TfIdf_fit iter self X = Inr self'" by (rule fit)
    show "TfIdf_idf self' = Some (map ?score idf2)" by (rule t(1))
    show "TfIdf_k self = None \<longrightarrow> length (map ?score idf2) = card (tokens X)"
      using unset by blast
    show "\<forall>k > 0. TfIdf_k self = Some k \<longrightarrow>
                 int (length (map ?score idf2)) \<le> k
               \<and> int (length (map ?score idf2)) = min k (int (card (tokens X)))
               \<and> set (dict_keys (map ?score idf2)) \<subseteq> tokens X
               \<and> (\<forall>w \<in> tokens X - set (dict_keys (map ?score idf2)).
                     dict_get (map ?score idf2) w = None
                   \<and> (\<forall>v \<in> set (dict_keys (map ?score idf2)). doc_freq X w \<le> doc_freq X v))
               \<and> (\<forall>(w, s) \<in> set (map ?score idf2). s = idf_score (length X) (doc_freq X w))"
      using set scores by blast
  qed
qed

theorem TfIdf_fit_table_size_witness:
  "set_order remdups
   \<and> TfIdf_k (TfIdf_init (Some 1) False) = Some 1 \<and> (0::int) < 1
   \<and> (\<exists>self' idf. TfIdf_fit remdups (TfIdf_init (Some 1) False) [''a b'', ''a''] = Inr self'
         \<and> TfIdf_idf self' = Some idf
         \<and> int (length idf) \<le> 1
         \<and> int (length idf) = min 1 (int (card (tokens [''a b'', ''a''])))
         \<and> set (dict_keys idf) \<subseteq> tokens [''a b'', ''a'']
         \<and> (\<forall>w \<in> tokens [''a b'', ''a''] - set (dict_keys idf).
               dict_get idf w = None
             \<and> (\<forall>v \<in> set (dict_keys idf). doc_freq [''a b'', ''a''] w \<le> doc_freq [''a b'', ''a''] v)))
   \<and> TfIdf_k (TfIdf_init None False) = None
   \<and> (\<exists>self' idf. TfIdf_fit remdups (TfIdf_init None False) [''a b'', ''a''] = Inr self'
         \<and> TfIdf_idf self' = Some idf
         \<and> length idf = card (tokens [''a b'', ''a'']))"
proof -
  let ?X = "[''a b'', ''a'']"
  have h1: "set_order remdups" by (simp add: set_order_def)
  have k1: "TfIdf_k (TfIdf_init (Some 1) False) = Some 1" by (simp add: TfIdf_init_def)
  have k2: "TfIdf_k (TfIdf_init None False) = None" by (simp add: TfIdf_init_def)
  obtain s1 i1 where a: "TfIdf_fit remdups (TfIdf_init (Some 1) False) ?X = Inr s1" "TfIdf_idf s1 = Some i1"
    and b: "\<forall>k > 0. TfIdf_k (TfIdf_init (Some 1) False) = Some k \<longrightarrow>
                 int (length i1) \<le> k
               \<and> int (length i1) = min k (int (card (tokens ?X)))
               \<and> set (dict_keys i1) \<subseteq> tokens ?X
               \<and> (\<forall>w \<in> tokens ?X - set (dict_keys i1).
                     dict_get i1 w = None
                   \<and> (\<forall>v \<in> set (dict_keys i1). doc_freq ?X w \<le> doc_freq ?X v))
               \<and> (\<forall>(w, s) \<in> set i1. s = idf_score (length ?X) (doc_freq ?X w))"
    using TfIdf_fit_table_size [OF h1, of "TfIdf_init (Some 1) False" ?X] by blast
  have c: "int (length i1) \<le> 1
               \<and> int (length i1) = min 1 (int (card (tokens ?X)))
               \<and> set (dict_keys i1) \<subseteq> tokens ?X
               \<and> (\<forall>w \<in> tokens ?X - set (dict_keys i1).
                     dict_get i1 w = None
                   \<and> (\<forall>v \<in> set (dict_keys i1). doc_freq ?X w \<le> doc_freq ?X v))"
    using b [rule_format, of 1] k1 by simp
  obtain s2 i2 where d: "TfIdf_fit remdups (TfIdf_init None False) ?X = Inr s2" "TfIdf_idf s2 = Some i2"
    and e: "TfIdf_k (TfIdf_init None False) = None \<longrightarrow> length i2 = card (tokens ?X)"
    using TfIdf_fit_table_size [OF h1, of "TfIdf_init None False" ?X] by (elim exE conjE)
  have f: "length i2 = card (tokens ?X)" using e k2 by simp
  have first: "\<exists>self' idf. TfIdf_fit remdups (TfIdf_init (Some 1) False) ?X = Inr self'
         \<and> TfIdf_idf self' = Some idf
         \<and> int (length idf) \<le> 1
         \<and> int (length idf) = min 1 (int (card (tokens ?X)))
         \<and> set (dict_keys idf) \<subseteq> tokens ?X
         \<and> (\<forall>w \<in> tokens ?X - set (dict_keys idf).
               dict_get idf w = None
             \<and> (\<forall>v \<in> set (dict_keys idf). doc_freq ?X w \<le> doc_freq ?X v))"
    using a c by blast
  have second: "\<exists>self' idf. TfIdf_fit remdups (TfIdf_init None False) ?X = Inr self'
         \<and> TfIdf_idf self' = Some idf
         \<and> length idf = card (tokens ?X)"
    using d f by blast
  show ?thesis using h1 k1 k2 first second by simp
qed

text \<open>With \<open>k = 0\<close> the test \<^verbatim>\<open>if self.k:\<close> fails and no token is dropped: the table of a
  one-token corpus has one entry, more than \<open>k\<close>. With \<open>k = -1\<close> the table is empty, and 0
  is more than \<open>k\<close>.\<close>

theorem TfIdf_fit_k_not_positive_counterexample:
  "TfIdf_fit remdups (TfIdf_init (Some 0) False) [''a'']
     = Inr \<lparr>TfIdf_k = Some 0, TfIdf_normalize = False, TfIdf_idf = Some [(''a'', ln (1 / 2))]\<rparr>
   \<and> \<not> int (length [(''a'', ln (1 / 2) :: real)]) \<le> 0
   \<and> TfIdf_fit remdups (TfIdf_init (Some (- 1)) False) [''a'']
     = Inr \<lparr>TfIdf_k = Some (- 1), TfIdf_normalize = False, TfIdf_idf = Some []\<rparr>
   \<and> \<not> int (length ([] :: real dict)) \<le> - 1"
  by (simp add: TfIdf_fit_def TfIdf_init_def split_def isspace_def dict_fromkeys_def
      dict_incr_def idf_score_def idf_arg_def restrict_top_def sorted_desc_def)

subsection \<open>TfIdf.transform\<close>

lemma dict_get_Some: "distinct (map fst d) \<Longrightarrow> (k, v) \<in> set d \<Longrightarrow> dict_get d k = Some v"
  by (induction d) (auto simp: rev_image_eqI)

lemma collect_map_closed:
  "(\<And>x. x \<in> set xs \<Longrightarrow> f (h x) = Inr (g x)) \<Longrightarrow> collect f (map h xs) = Inr (map g xs)"
  by (induction xs) simp_all

lemma TfIdf_text_closed:
  assumes "TfIdf_idf self = Some idf" and "distinct (map fst idf)"
  shows "TfIdf_text_to_tf_idf self doc =
         Inr (map float32 (if TfIdf_normalize self then normalize_row (tf_idf_vector idf doc)
                           else tf_idf_vector idf doc))"
proof -
  let ?ws = "split doc"
  let ?tf = "map (\<lambda>w. (w, count_list ?ws w)) (dict_keys idf)"
  have keys: "distinct (dict_keys idf)" using assms(2) by (simp add: dict_keys_def)
  have tf: "count_known (dict_keys idf) (dict_fromkeys (dict_keys idf) 0) ?ws = Inr ?tf"
    using keys by (rule count_known_closed)
  have dtf: "distinct (map fst ?tf)" unfolding keys_pairs using keys .
  have prod: "tf_times_idf ?tf idf (fst p) = Inr ((\<lambda>(w, s). real (count_list ?ws w) * s) p)"
    if p: "p \<in> set idf" for p
  proof -
    obtain w s where ws: "p = (w, s)" by (cases p)
    have "(w, count_list ?ws w) \<in> set ?tf" using p ws by (force simp: dict_keys_def)
    then have a: "dict_get ?tf w = Some (count_list ?ws w)" using dtf by (rule dict_get_Some [rotated])
    have b: "dict_get idf w = Some s" using assms(2) p ws by (simp add: dict_get_Some)
    show ?thesis using a b ws by (simp add: tf_times_idf_def)
  qed
  have "collect (tf_times_idf ?tf idf) (map fst idf) = Inr (map (\<lambda>(w, s). real (count_list ?ws w) * s) idf)"
    using prod by (rule collect_map_closed)
  then have "collect (tf_times_idf ?tf idf) (dict_keys idf) = Inr (tf_idf_vector idf doc)"
    by (simp only: dict_keys_def tf_idf_vector_def)
  then show ?thesis using assms(1) tf by (simp add: TfIdf_text_to_tf_idf_def)
qed

lemma length_tf_idf_vector: "length (tf_idf_vector idf doc) = length idf"
  by (simp add: tf_idf_vector_def)

lemma TfIdf_transform_closed:
  assumes "TfIdf_idf self = Some idf" and "distinct (map fst idf)" and "T \<noteq> []"
  shows "TfIdf_transform self T =
         (Inr (map (\<lambda>doc. map float32 (if TfIdf_normalize self
                                          then normalize_row (tf_idf_vector idf doc)
                                          else tf_idf_vector idf doc)) T), self)"
proof -
  let ?row = "\<lambda>doc. map float32 (if TfIdf_normalize self
                                  then normalize_row (tf_idf_vector idf doc)
                                  else tf_idf_vector idf doc)"
  have "collect (TfIdf_text_to_tf_idf self) T = Inr (map ?row T)"
    by (rule collect_closed) (rule TfIdf_text_closed [OF assms(1,2)])
  moreover have "np_stack (map ?row T) = Inr (map ?row T)"
    by (rule np_stack_same_length [where n = "length idf"])
      (use assms(3) in \<open>auto simp: normalize_row_def length_tf_idf_vector\<close>)
  ultimately show ?thesis using assms(1) by (simp add: TfIdf_transform_def)
qed

lemma TfIdf_fit_keys:
  assumes "set_order iter" and "TfIdf_fit iter self0 X = Inr self"
  shows "\<exists>idf. TfIdf_idf self = Some idf \<and> distinct (map fst idf)
           \<and> TfIdf_normalize self = TfIdf_normalize self0"
proof -
  obtain idf2 where t: "TfIdf_idf self = Some (map (\<lambda>(word, df). (word, idf_score (length X) df)) idf2)"
      "distinct (map fst idf2)" "TfIdf_normalize self = TfIdf_normalize self0"
    using TfIdf_fit_table [OF assms] by blast
  have "distinct (map fst (map (\<lambda>(word, df). (word, idf_score (length X) df)) idf2))"
    unfolding keys_scores using t(2) .
  with t(1,3) show ?thesis by blast
qed

lemma sum_squares_nonneg: "0 \<le> (\<Sum>x\<leftarrow>xs. x * x :: real)"
  by (induction xs) simp_all

lemma norm2_nonneg: "0 \<le> norm2 xs"
  by (simp add: norm2_def sum_squares_nonneg)

lemma sum_squares_scaled: "(\<Sum>x\<leftarrow>xs. (x / c) * (x / c)) = (\<Sum>x\<leftarrow>xs. x * x) / (c * c :: real)"
  by (induction xs) (simp_all add: add_divide_distrib)

lemma norm2_scaled:
  assumes "0 < c"
  shows "norm2 (map (\<lambda>x. x / c) xs) = norm2 xs / c"
proof -
  have "norm2 (map (\<lambda>x. x / c) xs) = sqrt (\<Sum>x\<leftarrow>xs. (x / c) * (x / c))"
    by (simp add: norm2_def comp_def)
  also have "\<dots> = sqrt ((\<Sum>x\<leftarrow>xs. x * x) / (c * c))" by (simp only: sum_squares_scaled)
  also have "\<dots> = sqrt (\<Sum>x\<leftarrow>xs. x * x) / sqrt (c * c)" by (rule real_sqrt_divide)
  also have "sqrt (c * c) = c" using assms by simp
  finally show ?thesis by (simp add: norm2_def)
qed

lemma EPS_pos: "0 < EPS"
  by (simp add: EPS_def)

lemma norm2_normalize_row: "norm2 (normalize_row raw) = norm2 raw / (norm2 raw + EPS)"
proof -
  have "0 < norm2 raw + EPS" using norm2_nonneg [of raw] EPS_pos by linarith
  then show ?thesis unfolding normalize_row_def by (rule norm2_scaled)
qed

lemma unit_gap:
  fixes n :: real
  assumes "0 \<le> n"
  shows "n / (n + EPS) < 1" and "\<bar>n / (n + EPS) - 1\<bar> \<le> EPS \<longleftrightarrow> 1 - EPS \<le> n"
proof -
  have pos: "0 < n + EPS" using assms EPS_pos by linarith
  show lt: "n / (n + EPS) < 1" using pos EPS_pos by (simp add: divide_less_eq)
  have "1 - n / (n + EPS) = EPS / (n + EPS)" using pos by (simp add: field_simps)
  then have "\<bar>n / (n + EPS) - 1\<bar> = EPS / (n + EPS)" using lt by linarith
  moreover have "EPS / (n + EPS) \<le> EPS \<longleftrightarrow> 1 - EPS \<le> n"
    using pos EPS_pos by (simp add: divide_le_eq) linarith
  ultimately show "\<bar>n / (n + EPS) - 1\<bar> \<le> EPS \<longleftrightarrow> 1 - EPS \<le> n" by simp
qed

text \<open>Rounding every entry within the fraction \<open>d\<close> of its magnitude keeps the norm within
  the same fraction.\<close>

lemma norm2_perturbed:
  assumes "0 \<le> d" and "d \<le> 1"
    and "\<And>x. x \<in> set xs \<Longrightarrow> \<bar>f x - x\<bar> \<le> d * \<bar>x\<bar>"
  shows "(1 - d) * norm2 xs \<le> norm2 (map f xs)" and "norm2 (map f xs) \<le> (1 + d) * norm2 xs"
proof -
  have sq: "((1 - d) * (1 - d)) * (x * x) \<le> f x * f x \<and> f x * f x \<le> ((1 + d) * (1 + d)) * (x * x)"
    if x: "x \<in> set xs" for x
  proof -
    have c: "\<bar>f x - x\<bar> \<le> d * \<bar>x\<bar>" using assms(3) [OF x] .
    have e1: "(1 - d) * \<bar>x\<bar> = \<bar>x\<bar> - d * \<bar>x\<bar>" by (simp add: algebra_simps)
    have e2: "(1 + d) * \<bar>x\<bar> = \<bar>x\<bar> + d * \<bar>x\<bar>" by (simp add: algebra_simps)
    have lo: "(1 - d) * \<bar>x\<bar> \<le> \<bar>f x\<bar>" unfolding e1 using c by linarith
    have hi: "\<bar>f x\<bar> \<le> (1 + d) * \<bar>x\<bar>" unfolding e2 using c by linarith
    have nn: "0 \<le> (1 - d) * \<bar>x\<bar>" using assms(2) by simp
    have "((1 - d) * \<bar>x\<bar>) * ((1 - d) * \<bar>x\<bar>) \<le> \<bar>f x\<bar> * \<bar>f x\<bar>"
      using lo nn by (intro mult_mono) simp_all
    moreover have "\<bar>f x\<bar> * \<bar>f x\<bar> \<le> ((1 + d) * \<bar>x\<bar>) * ((1 + d) * \<bar>x\<bar>)"
      using hi by (intro mult_mono) simp_all
    ultimately show ?thesis by (simp add: algebra_simps)
  qed
  let ?S = "\<Sum>x\<leftarrow>xs. x * x"
  have S: "0 \<le> ?S" by (rule sum_squares_nonneg)
  have "(\<Sum>x\<leftarrow>xs. ((1 - d) * (1 - d)) * (x * x)) \<le> (\<Sum>x\<leftarrow>xs. f x * f x)"
    using sq by (intro sum_list_mono) simp
  then have lo: "((1 - d) * (1 - d)) * ?S \<le> (\<Sum>x\<leftarrow>xs. f x * f x)"
    by (simp only: sum_list_const_mult)
  have "(\<Sum>x\<leftarrow>xs. f x * f x) \<le> (\<Sum>x\<leftarrow>xs. ((1 + d) * (1 + d)) * (x * x))"
    using sq by (intro sum_list_mono) simp
  then have hi: "(\<Sum>x\<leftarrow>xs. f x * f x) \<le> ((1 + d) * (1 + d)) * ?S"
    by (simp only: sum_list_const_mult)
  have n: "norm2 (map f xs) = sqrt (\<Sum>x\<leftarrow>xs. f x * f x)" by (simp add: norm2_def comp_def)
  have "sqrt (((1 - d) * (1 - d)) * ?S) = (1 - d) * sqrt ?S"
    using assms(2) by (simp add: real_sqrt_mult)
  moreover have "sqrt (((1 - d) * (1 - d)) * ?S) \<le> sqrt (\<Sum>x\<leftarrow>xs. f x * f x)"
    using lo by (rule real_sqrt_le_mono)
  ultimately show "(1 - d) * norm2 xs \<le> norm2 (map f xs)" unfolding n by (simp add: norm2_def)
  have "sqrt (((1 + d) * (1 + d)) * ?S) = (1 + d) * sqrt ?S"
    using assms(1) by (simp add: real_sqrt_mult)
  moreover have "sqrt (\<Sum>x\<leftarrow>xs. f x * f x) \<le> sqrt (((1 + d) * (1 + d)) * ?S)"
    using hi by (rule real_sqrt_le_mono)
  ultimately show "norm2 (map f xs) \<le> (1 + d) * norm2 xs" unfolding n by (simp add: norm2_def)
qed

text \<open>The norm of a row after the cast, when no entry underflows.\<close>

lemma norm2_float32:
  assumes "\<And>x. x \<in> set xs \<Longrightarrow> x = 0 \<or> 1 / 2 ^ 126 \<le> \<bar>x\<bar>"
  shows "(1 - 1 / 2 ^ 24) * norm2 xs \<le> norm2 (map float32 xs)"
    and "norm2 (map float32 xs) \<le> (1 + 1 / 2 ^ 24) * norm2 xs"
proof -
  have near: "\<bar>float32 x - x\<bar> \<le> (1 / 2 ^ 24) * \<bar>x\<bar>" if x: "x \<in> set xs" for x
  proof (cases "x = 0")
    case True
    then show ?thesis by (simp add: float32_zero)
  next
    case False
    then have "1 / 2 ^ 126 \<le> \<bar>x\<bar>" using assms [OF x] by simp
    then show ?thesis using float32_relative [of x] by simp
  qed
  show "(1 - 1 / 2 ^ 24) * norm2 xs \<le> norm2 (map float32 xs)"
    by (rule norm2_perturbed(1) [of "1 / 2 ^ 24" xs float32, OF _ _ near]) simp_all
  show "norm2 (map float32 xs) \<le> (1 + 1 / 2 ^ 24) * norm2 xs"
    by (rule norm2_perturbed(2) [of "1 / 2 ^ 24" xs float32, OF _ _ near]) simp_all
qed

text \<open>With the norm of the tf-idf vector at least 1.01, the norm of the row after the cast
  is within \<open>EPS\<close> of 1.\<close>

lemma normalized_float32_near_one:
  assumes "\<And>v. v \<in> set (normalize_row raw) \<Longrightarrow> v = 0 \<or> 1 / 2 ^ 126 \<le> \<bar>v\<bar>"
    and "101 / 100 \<le> norm2 raw"
  shows "\<bar>norm2 (map float32 (normalize_row raw)) - 1\<bar> \<le> EPS"
proof -
  let ?n = "norm2 raw"
  let ?q = "norm2 (normalize_row raw)"
  let ?r = "norm2 (map float32 (normalize_row raw))"
  have q: "?q = ?n / (?n + EPS)" by (rule norm2_normalize_row)
  have pos: "0 < ?n + EPS" using assms(2) EPS_pos by linarith
  have q1: "?q < 1" unfolding q using pos EPS_pos by (simp add: divide_less_eq)
  have "(10100 / 10101) * (?n + EPS) \<le> ?n" using assms(2) by (simp add: EPS_def)
  then have q2: "10100 / 10101 \<le> ?q" unfolding q using pos by (simp add: le_divide_eq)
  have lo: "(1 - 1 / 2 ^ 24) * ?q \<le> ?r" using assms(1) by (rule norm2_float32(1))
  have hi: "?r \<le> (1 + 1 / 2 ^ 24) * ?q" using assms(1) by (rule norm2_float32(2))
  have "(1 - 1 / 2 ^ 24) * (10100 / 10101) \<le> (1 - 1 / 2 ^ 24) * ?q"
    using q2 by (intro mult_left_mono) simp_all
  moreover have "1 - EPS \<le> (1 - 1 / 2 ^ 24) * (10100 / 10101 :: real)" by (simp add: EPS_def)
  ultimately have a: "1 - EPS \<le> ?r" using lo by linarith
  have "(1 + 1 / 2 ^ 24) * ?q \<le> (1 + 1 / 2 ^ 24) * 1"
    using q1 by (intro mult_left_mono) simp_all
  moreover have "(1 + 1 / 2 ^ 24) * 1 \<le> 1 + (EPS :: real)" by (simp add: EPS_def)
  ultimately have b: "?r \<le> 1 + EPS" using hi by linarith
  show ?thesis using a b by linarith
qed

text \<open>Claim C7, with the cast to float32 and for rows long enough: after \<^verbatim>\<open>TfIdf.fit\<close> on an
  object made with \<^verbatim>\<open>normalize=True\<close>, the row of a text is its tf-idf vector divided by the
  L2 norm of that vector plus \<open>EPS = 1e-4\<close>, each entry stored as a float32, in
  \<^verbatim>\<open>_text_to_tf_idf\<close> and in each row of \<^verbatim>\<open>transform\<close> on a batch that is not empty. When the
  norm of the tf-idf vector is at least 1.01 and no entry of the quotient underflows in
  float32 (each is zero or at least \<open>2 powr -126\<close> in magnitude), the L2 norm of the row is
  within \<open>EPS\<close> of 1.\<close>

theorem TfIdf_normalized_row:
  assumes "set_order iter" and "TfIdf_normalize self0"
    and "TfIdf_fit iter self0 X = Inr self"
  shows "\<exists>idf. TfIdf_idf self = Some idf
           \<and> normalize_row (tf_idf_vector idf doc)
               = map (\<lambda>x. x / (norm2 (tf_idf_vector idf doc) + EPS)) (tf_idf_vector idf doc)
           \<and> TfIdf_text_to_tf_idf self doc
               = Inr (map float32 (normalize_row (tf_idf_vector idf doc)))
           \<and> (T \<noteq> [] \<longrightarrow> fst (TfIdf_transform self T)
               = Inr (map (\<lambda>d. map float32 (normalize_row (tf_idf_vector idf d))) T))
           \<and> ((\<forall>v \<in> set (normalize_row (tf_idf_vector idf doc)). v = 0 \<or> 1 / 2 ^ 126 \<le> \<bar>v\<bar>)
                \<and> 101 / 100 \<le> norm2 (tf_idf_vector idf doc)
               \<longrightarrow> \<bar>norm2 (map float32 (normalize_row (tf_idf_vector idf doc))) - 1\<bar> \<le> EPS)"
proof -
  obtain idf where t: "TfIdf_idf self = Some idf" "distinct (map fst idf)" "TfIdf_normalize self"
    using TfIdf_fit_keys [OF assms(1,3)] assms(2) by blast
  let ?raw = "tf_idf_vector idf doc"
  have def: "normalize_row ?raw = map (\<lambda>x. x / (norm2 ?raw + EPS)) ?raw"
    by (rule normalize_row_def)
  have row: "TfIdf_text_to_tf_idf self doc = Inr (map float32 (normalize_row ?raw))"
    using TfIdf_text_closed [OF t(1,2)] t(3) by simp
  have batch: "fst (TfIdf_transform self T)
               = Inr (map (\<lambda>d. map float32 (normalize_row (tf_idf_vector idf d))) T)"
    if "T \<noteq> []"
    using TfIdf_transform_closed [OF t(1,2) that] t(3) by simp
  have near: "\<bar>norm2 (map float32 (normalize_row ?raw)) - 1\<bar> \<le> EPS"
    if "\<forall>v \<in> set (normalize_row ?raw). v = 0 \<or> 1 / 2 ^ 126 \<le> \<bar>v\<bar>"
      and "101 / 100 \<le> norm2 ?raw"
    using that by (intro normalized_float32_near_one) blast+
  show ?thesis using t(1) def row batch near by blast
qed

lemma norm2_single: "norm2 [x] = \<bar>x\<bar>"
  by (simp add: norm2_def)

lemma TfIdf_fit_twice_a:
  "TfIdf_fit remdups (TfIdf_init None True) [''a'', ''a'']
     = Inr \<lparr>TfIdf_k = None, TfIdf_normalize = True, TfIdf_idf = Some [(''a'', ln (2 / 3))]\<rparr>"
  by (simp add: TfIdf_fit_def TfIdf_init_def split_def isspace_def dict_fromkeys_def
      dict_incr_def idf_score_def idf_arg_def)

lemma ln_two_thirds: "1 / 3 \<le> \<bar>ln (2 / 3 :: real)\<bar>" "\<bar>ln (2 / 3 :: real)\<bar> \<le> 1 / 2"
proof -
  have a: "ln (2 / 3 :: real) \<le> 2 / 3 - 1" by (rule ln_le_minus_one) simp
  have "ln (3 / 2 :: real) \<le> 3 / 2 - 1" by (rule ln_le_minus_one) simp
  moreover have "ln (2 / 3 :: real) = - ln (3 / 2)"
    using ln_inverse [of "3 / 2 :: real"] by simp
  ultimately have b: "- (1 / 2) \<le> ln (2 / 3 :: real)" by simp
  show "1 / 3 \<le> \<bar>ln (2 / 3 :: real)\<bar>" using a by linarith
  show "\<bar>ln (2 / 3 :: real)\<bar> \<le> 1 / 2" using a b by linarith
qed

text \<open>A table with the one token \<^verbatim>\<open>a\<close>, of score \<open>l\<close>, and a text that holds the token \<open>c\<close>
  times: the quotient before the cast, and its magnitude.\<close>

lemma quotient_single:
  assumes "0 < c"
  shows "normalize_row [c * l] = [c * l / (c * \<bar>l\<bar> + EPS)]"
    and "\<bar>c * l / (c * \<bar>l\<bar> + EPS)\<bar> = c * \<bar>l\<bar> / (c * \<bar>l\<bar> + EPS)"
proof -
  have n: "norm2 [c * l] = c * \<bar>l\<bar>"
    unfolding norm2_single using assms by (simp add: abs_mult)
  show "normalize_row [c * l] = [c * l / (c * \<bar>l\<bar> + EPS)]"
    unfolding normalize_row_def n by simp
  have pos: "0 < c * \<bar>l\<bar> + EPS"
    using assms EPS_pos by (simp add: add_nonneg_pos)
  have "\<bar>c * l / (c * \<bar>l\<bar> + EPS)\<bar> = \<bar>c * l\<bar> / \<bar>c * \<bar>l\<bar> + EPS\<bar>" by (rule abs_divide)
  also have "\<bar>c * \<bar>l\<bar> + EPS\<bar> = c * \<bar>l\<bar> + EPS" using pos by (rule abs_of_pos)
  also have "\<bar>c * l\<bar> = c * \<bar>l\<bar>" using assms by (simp add: abs_mult)
  finally show "\<bar>c * l / (c * \<bar>l\<bar> + EPS)\<bar> = c * \<bar>l\<bar> / (c * \<bar>l\<bar> + EPS)" .
qed

lemma row_of_a:
  "TfIdf_text_to_tf_idf \<lparr>TfIdf_k = None, TfIdf_normalize = True, TfIdf_idf = Some [(''a'', l)]\<rparr> ''a''
     = Inr [float32 (l / (\<bar>l\<bar> + EPS))]"
  by (simp add: TfIdf_text_to_tf_idf_def dict_keys_def dict_fromkeys_def dict_incr_def
      tf_times_idf_def normalize_row_def norm2_def split_def isspace_def)

lemma vector_of_four_a: "tf_idf_vector [(''a'', l)] ''a a a a'' = [4 * l]"
  by (simp add: tf_idf_vector_def split_def isspace_def)

text \<open>With a score between a third and a half in magnitude, the row of one occurrence is
  short and the row of four is long.\<close>

lemma short_row_far:
  assumes "1 / 3 \<le> \<bar>l\<bar>" and "\<bar>l\<bar> \<le> 1 / 2"
  shows "float32 (l / (\<bar>l\<bar> + EPS)) \<noteq> 0"
    and "\<not> \<bar>norm2 [float32 (l / (\<bar>l\<bar> + EPS))] - 1\<bar> \<le> EPS"
proof -
  let ?v = "l / (\<bar>l\<bar> + EPS)"
  have pos: "0 < \<bar>l\<bar> + EPS" using assms EPS_pos by linarith
  have "\<bar>?v\<bar> = \<bar>l\<bar> / \<bar>\<bar>l\<bar> + EPS\<bar>" by (rule abs_divide)
  also have "\<bar>\<bar>l\<bar> + EPS\<bar> = \<bar>l\<bar> + EPS" using pos by (rule abs_of_pos)
  finally have av: "\<bar>?v\<bar> = \<bar>l\<bar> / (\<bar>l\<bar> + EPS)" .
  have lo: "1 / 2 \<le> \<bar>?v\<bar>" unfolding av using assms pos by (simp add: le_divide_eq EPS_def)
  have hi: "\<bar>?v\<bar> \<le> 5000 / 5001" unfolding av using assms pos by (simp add: divide_le_eq EPS_def)
  have "1 / 2 ^ 126 \<le> (1 / 2 :: real)" by simp
  then have "1 / 2 ^ 126 \<le> \<bar>?v\<bar>" using lo by linarith
  then have rel: "\<bar>float32 ?v - ?v\<bar> \<le> \<bar>?v\<bar> / 2 ^ 24" by (rule float32_relative)
  have "\<bar>?v\<bar> / 2 ^ 24 < \<bar>?v\<bar>" using lo by simp
  then show "float32 ?v \<noteq> 0" using rel by auto
  have "\<bar>float32 ?v\<bar> \<le> \<bar>?v\<bar> + \<bar>?v\<bar> / 2 ^ 24" using rel by linarith
  also have "\<dots> \<le> 5000 / 5001 + (5000 / 5001) / 2 ^ 24"
    using hi by (intro add_mono divide_right_mono) simp_all
  also have "\<dots> < 1 - EPS" by (simp add: EPS_def)
  finally have "\<not> \<bar>\<bar>float32 ?v\<bar> - 1\<bar> \<le> EPS" by linarith
  then show "\<not> \<bar>norm2 [float32 ?v] - 1\<bar> \<le> EPS" unfolding norm2_single .
qed

lemma long_row_normal:
  assumes "1 / 3 \<le> \<bar>l\<bar>" and "\<bar>l\<bar> \<le> 1 / 2"
  shows "\<forall>v \<in> set (normalize_row [4 * l]). v = 0 \<or> 1 / 2 ^ 126 \<le> \<bar>v\<bar>"
    and "101 / 100 \<le> norm2 [4 * l]"
proof -
  have pos: "0 < 4 * \<bar>l\<bar> + EPS" using assms EPS_pos by linarith
  have q: "normalize_row [4 * l] = [4 * l / (4 * \<bar>l\<bar> + EPS)]"
    by (rule quotient_single(1)) simp
  have av: "\<bar>4 * l / (4 * \<bar>l\<bar> + EPS)\<bar> = 4 * \<bar>l\<bar> / (4 * \<bar>l\<bar> + EPS)"
    by (rule quotient_single(2)) simp
  have "1 / 2 \<le> \<bar>4 * l / (4 * \<bar>l\<bar> + EPS)\<bar>"
    unfolding av using assms pos by (simp add: le_divide_eq EPS_def)
  moreover have "1 / 2 ^ 126 \<le> (1 / 2 :: real)" by simp
  ultimately have "1 / 2 ^ 126 \<le> \<bar>4 * l / (4 * \<bar>l\<bar> + EPS)\<bar>" by linarith
  then show "\<forall>v \<in> set (normalize_row [4 * l]). v = 0 \<or> 1 / 2 ^ 126 \<le> \<bar>v\<bar>"
    unfolding q by simp
  have "norm2 [4 * l] = 4 * \<bar>l\<bar>" unfolding norm2_single by (simp add: abs_mult)
  then show "101 / 100 \<le> norm2 [4 * l]" using assms by linarith
qed

text \<open>A corpus of two documents \<^verbatim>\<open>"a"\<close>: the score of the token is \<open>ln (2 / 3)\<close>, about
  \<open>-0.405\<close>. The row of the text \<^verbatim>\<open>"a"\<close> is not zero and its norm is about 0.99975, further
  than \<open>EPS\<close> from 1.\<close>

theorem normalized_norm_counterexample:
  "TfIdf_fit remdups (TfIdf_init None True) [''a'', ''a'']
     = Inr \<lparr>TfIdf_k = None, TfIdf_normalize = True, TfIdf_idf = Some [(''a'', ln (2 / 3))]\<rparr>
   \<and> TfIdf_text_to_tf_idf
         \<lparr>TfIdf_k = None, TfIdf_normalize = True, TfIdf_idf = Some [(''a'', ln (2 / 3))]\<rparr> ''a''
       = Inr [float32 (ln (2 / 3) / (\<bar>ln (2 / 3)\<bar> + EPS))]
   \<and> float32 (ln (2 / 3) / (\<bar>ln (2 / 3)\<bar> + EPS)) \<noteq> 0
   \<and> \<not> \<bar>norm2 [float32 (ln (2 / 3) / (\<bar>ln (2 / 3)\<bar> + EPS))] - 1\<bar> \<le> EPS"
  using TfIdf_fit_twice_a row_of_a [of "ln (2 / 3)"]
    short_row_far(1) [OF ln_two_thirds] short_row_far(2) [OF ln_two_thirds]
  by (intro conjI)

theorem TfIdf_normalized_row_witness:
  "set_order remdups \<and> TfIdf_normalize (TfIdf_init None True)
   \<and> TfIdf_fit remdups (TfIdf_init None True) [''a'', ''a'']
       = Inr \<lparr>TfIdf_k = None, TfIdf_normalize = True, TfIdf_idf = Some [(''a'', ln (2 / 3))]\<rparr>
   \<and> [''a a a a''] \<noteq> []
   \<and> fst (TfIdf_transform
         \<lparr>TfIdf_k = None, TfIdf_normalize = True, TfIdf_idf = Some [(''a'', ln (2 / 3))]\<rparr> [''a a a a''])
       = Inr [map float32 (normalize_row (tf_idf_vector [(''a'', ln (2 / 3))] ''a a a a''))]
   \<and> normalize_row (tf_idf_vector [(''a'', ln (2 / 3))] ''a a a a'')
       = [4 * ln (2 / 3) / (4 * \<bar>ln (2 / 3)\<bar> + EPS)]
   \<and> 1 / 2 ^ 126 \<le> \<bar>4 * ln (2 / 3) / (4 * \<bar>ln (2 / 3)\<bar> + EPS)\<bar>
   \<and> 101 / 100 \<le> norm2 (tf_idf_vector [(''a'', ln (2 / 3))] ''a a a a'')
   \<and> \<bar>norm2 (map float32 (normalize_row (tf_idf_vector [(''a'', ln (2 / 3))] ''a a a a''))) - 1\<bar> \<le> EPS"
proof -
  let ?l = "ln (2 / 3 :: real)"
  let ?self = "\<lparr>TfIdf_k = None, TfIdf_normalize = True, TfIdf_idf = Some [(''a'', ?l)]\<rparr>"
  let ?raw = "tf_idf_vector [(''a'', ?l)] ''a a a a''"
  have h1: "set_order remdups" by (simp add: set_order_def)
  have h2: "TfIdf_normalize (TfIdf_init None True)" by (simp add: TfIdf_init_def)
  have h3: "TfIdf_fit remdups (TfIdf_init None True) [''a'', ''a''] = Inr ?self"
    by (rule TfIdf_fit_twice_a)
  have h4: "[''a a a a''] \<noteq> []" by simp
  obtain idf where a: "TfIdf_idf ?self = Some idf"
    and b: "[''a a a a''] \<noteq> [] \<longrightarrow> fst (TfIdf_transform ?self [''a a a a''])
               = Inr (map (\<lambda>d. map float32 (normalize_row (tf_idf_vector idf d))) [''a a a a''])"
    and c: "(\<forall>v \<in> set (normalize_row (tf_idf_vector idf ''a a a a'')). v = 0 \<or> 1 / 2 ^ 126 \<le> \<bar>v\<bar>)
                \<and> 101 / 100 \<le> norm2 (tf_idf_vector idf ''a a a a'')
               \<longrightarrow> \<bar>norm2 (map float32 (normalize_row (tf_idf_vector idf ''a a a a''))) - 1\<bar> \<le> EPS"
    using TfIdf_normalized_row [OF h1 h2 h3, of "''a a a a''" "[''a a a a'']"] by blast
  have idf: "idf = [(''a'', ?l)]" using a by simp
  have h5: "\<forall>v \<in> set (normalize_row ?raw). v = 0 \<or> 1 / 2 ^ 126 \<le> \<bar>v\<bar>"
    unfolding vector_of_four_a by (rule long_row_normal(1) [OF ln_two_thirds])
  have h6: "101 / 100 \<le> norm2 ?raw"
    unfolding vector_of_four_a by (rule long_row_normal(2) [OF ln_two_thirds])
  have nz: "4 * ?l / (4 * \<bar>?l\<bar> + EPS) \<noteq> 0"
    using ln_two_thirds EPS_pos by auto
  have b': "fst (TfIdf_transform ?self [''a a a a'']) = Inr [map float32 (normalize_row ?raw)]"
    using b [rule_format, OF h4] unfolding idf list.map .
  have c': "\<bar>norm2 (map float32 (normalize_row ?raw)) - 1\<bar> \<le> EPS"
    using c [unfolded idf] h5 h6 by blast
  have q: "normalize_row ?raw = [4 * ?l / (4 * \<bar>?l\<bar> + EPS)]"
    unfolding vector_of_four_a by (rule quotient_single(1)) simp
  have u: "1 / 2 ^ 126 \<le> \<bar>4 * ?l / (4 * \<bar>?l\<bar> + EPS)\<bar>"
    using h5 q nz by simp
  show ?thesis using h1 h2 h3 h4 b' q u h6 c' by (intro conjI)
qed

text \<open>Claim C10: after \<^verbatim>\<open>TfIdf.fit\<close> on an object made with \<^verbatim>\<open>normalize=True\<close>, a text none
  of whose tokens is in the table has the tf-idf vector of zeros; the divisor of the
  normalisation, norm plus \<open>EPS\<close>, is \<open>EPS\<close>, which is not zero; the row returned by
  \<^verbatim>\<open>_text_to_tf_idf\<close>, and by \<^verbatim>\<open>transform\<close> for that text, has one zero for each entry of the
  table, and no exception is raised.\<close>

theorem TfIdf_no_known_token:
  assumes "set_order iter" and "TfIdf_normalize self0"
    and "TfIdf_fit iter self0 X = Inr self"
    and "TfIdf_idf self = Some idf"
    and "set (split doc) \<inter> set (dict_keys idf) = {}"
  shows "tf_idf_vector idf doc = replicate (length idf) 0
         \<and> norm2 (tf_idf_vector idf doc) + EPS = EPS \<and> EPS \<noteq> 0
         \<and> TfIdf_text_to_tf_idf self doc = Inr (replicate (length idf) 0)
         \<and> fst (TfIdf_transform self [doc]) = Inr [replicate (length idf) 0]"
proof -
  have t: "distinct (map fst idf)" "TfIdf_normalize self"
    using TfIdf_fit_keys [OF assms(1,3)] assms(2,4) by auto
  have "count_list (split doc) (fst p) = 0" if "p \<in> set idf" for p
    using that assms(5) by (force simp: dict_keys_def count_list_0_iff)
  then have "map (\<lambda>(w, s). real (count_list (split doc) w) * s) idf = map (\<lambda>p. 0) idf"
    by (intro map_cong) (auto simp: case_prod_unfold)
  then have raw: "tf_idf_vector idf doc = replicate (length idf) 0"
    by (simp add: tf_idf_vector_def map_replicate_const)
  have n: "norm2 (tf_idf_vector idf doc) = 0"
    unfolding raw by (simp add: norm2_def map_replicate_const sum_list_replicate)
  have nr: "normalize_row (tf_idf_vector idf doc) = replicate (length idf) 0"
    unfolding normalize_row_def n unfolding raw by simp
  have cast: "map float32 (normalize_row (tf_idf_vector idf doc)) = replicate (length idf) 0"
    unfolding nr by (simp add: float32_zero)
  have row: "TfIdf_text_to_tf_idf self doc = Inr (replicate (length idf) 0)"
    using TfIdf_text_closed [OF assms(4) t(1)] t(2) cast by simp
  have "TfIdf_transform self [doc]
        = (Inr (map (\<lambda>d. map float32 (normalize_row (tf_idf_vector idf d))) [doc]), self)"
    using TfIdf_transform_closed [OF assms(4) t(1), of "[doc]"] t(2) by simp
  then have batch: "fst (TfIdf_transform self [doc]) = Inr [replicate (length idf) 0]"
    using cast by simp
  show ?thesis using raw n row batch EPS_pos by simp
qed

theorem TfIdf_no_known_token_witness:
  "set_order remdups \<and> TfIdf_normalize (TfIdf_init None True)
   \<and> TfIdf_fit remdups (TfIdf_init None True) [''a'', ''a'']
       = Inr \<lparr>TfIdf_k = None, TfIdf_normalize = True, TfIdf_idf = Some [(''a'', ln (2 / 3))]\<rparr>
   \<and> TfIdf_idf \<lparr>TfIdf_k = None, TfIdf_normalize = True, TfIdf_idf = Some [(''a'', ln (2 / 3))]\<rparr>
       = Some [(''a'', ln (2 / 3))]
   \<and> set (split ''b c'') \<inter> set (dict_keys [(''a'', ln (2 / 3 :: real))]) = {}
   \<and> TfIdf_text_to_tf_idf
         \<lparr>TfIdf_k = None, TfIdf_normalize = True, TfIdf_idf = Some [(''a'', ln (2 / 3))]\<rparr> ''b c''
       = Inr [0]
   \<and> fst (TfIdf_transform
         \<lparr>TfIdf_k = None, TfIdf_normalize = True, TfIdf_idf = Some [(''a'', ln (2 / 3))]\<rparr> [''b c''])
       = Inr [[0]]"
proof -
  let ?self = "\<lparr>TfIdf_k = None, TfIdf_normalize = True, TfIdf_idf = Some [(''a'', ln (2 / 3 :: real))]\<rparr>"
  have h1: "set_order remdups" by (simp add: set_order_def)
  have h2: "TfIdf_normalize (TfIdf_init None True)" by (simp add: TfIdf_init_def)
  have h3: "TfIdf_fit remdups (TfIdf_init None True) [''a'', ''a''] = Inr ?self"
    by (rule TfIdf_fit_twice_a)
  have h4: "TfIdf_idf ?self = Some [(''a'', ln (2 / 3))]" by simp
  have h5: "set (split ''b c'') \<inter> set (dict_keys [(''a'', ln (2 / 3 :: real))]) = {}"
    by (simp add: split_def isspace_def dict_keys_def)
  show ?thesis using h1 h2 h3 h4 h5 TfIdf_no_known_token [OF h1 h2 h3 h4 h5] by simp
qed

end
